theory Spec2Isabelle
  imports Main
begin

section \<open>Values, exceptions and observable effects\<close>

text \<open>
  The scraper of \<^verbatim>\<open>src/scraper.py\<close> talks to three collaborators: an HTTP client, a
  browser driver and a spreadsheet writer. They are parameters of the model (the record
  \<open>env\<close> below), acting on a world state \<open>'w\<close> that is threaded through every call.
  What the program itself does to the outside is recorded as a trace of events.

  What the model takes for granted:
  \<^item> strings are lists of characters with code points below 256, and \<^verbatim>\<open>lower()\<close> and
    \<^verbatim>\<open>strip()\<close> act on them as Python does on these code points;
  \<^item> a configuration is well typed: a url, a type and a selector are strings, the
    selectors are a dict (an association list with distinct keys), the limit is an
    integer, the json path a list of strings;
  \<^item> numbers in JSON are integers;
  \<^item> a CSS selector given to the static parser is well formed, so \<^verbatim>\<open>soup.select\<close>
    returns;
  \<^item> the world changes when the program navigates, clicks, waits, quits or sends a
    request, and not while it looks up elements or reads them;
  \<^item> creating the output directory, opening the spreadsheet writer, writing one site's
    sheet and closing the writer are collaborators, and each of them may raise.
\<close>

datatype exn =
    RequestException
  | KeyError string
  | ValueError
  | AttributeError
  | IndexError
  | TimeoutException
  | WebDriverException

datatype level = Info | Warning | Error

datatype event =
    Request string
  | Sleep nat
  | Log level
  | Navigate string
  | Quit
  | Sheet nat

text \<open>Python values as they come out of \<^verbatim>\<open>response.json()\<close>; \<open>JNone\<close> is \<^verbatim>\<open>None\<close>.\<close>

datatype json =
    JNone
  | JBool bool
  | JInt int
  | JStr string
  | JList "json list"
  | JDict "(string \<times> json) list"

text \<open>The value of one field of an extraction record: \<^verbatim>\<open>None\<close>, a string, or a list.\<close>

datatype val = VNone | VStr string | VList "val list"

type_synonym row = "(string \<times> val) list"

text \<open>What a scraper hands to the orchestrator: a list of records, or the API's value.\<close>

datatype payload = Rows "row list" | Api json

text \<open>An element of a parsed static document, reduced to what the scraper reads from it:
  \<^verbatim>\<open>get_text(strip=True)\<close>, \<^verbatim>\<open>get("src")\<close> and \<^verbatim>\<open>get("href")\<close>.\<close>

record tag =
  tag_text :: string
  tag_src :: "string option"
  tag_href :: "string option"

text \<open>A parsed document answers \<^verbatim>\<open>soup.select(selector)\<close>, in document order.\<close>

type_synonym soup = "string \<Rightarrow> tag list"

text \<open>The conditions handed to \<^verbatim>\<open>WebDriverWait(...).until\<close>.\<close>

datatype 'e condition =
    Staleness_of 'e
  | Presence_of_element_located string
  | Url_changes string

text \<open>One site descriptor of the configuration; an absent key is \<open>None\<close>.\<close>

record site =
  site_name :: "string option"
  site_url :: "string option"
  site_type :: "string option"
  site_selectors :: "(string \<times> string) list option"
  site_pagination :: "string option"
  site_limit :: "int option"
  site_browser :: "string option"
  site_json_path :: "string list option"
  site_api_key :: "string option"

record ('w, 'e) env =
  requests_get_json :: "string \<Rightarrow> (string \<times> string) list \<Rightarrow> 'w \<Rightarrow> (exn + json) \<times> 'w"
  requests_get_soup :: "string \<Rightarrow> 'w \<Rightarrow> (exn + soup) \<times> 'w"
  urljoin :: "string \<Rightarrow> string \<Rightarrow> string"
  webdriver_new :: "string \<Rightarrow> 'w \<Rightarrow> exn option \<times> 'w"
  driver_get :: "string \<Rightarrow> 'w \<Rightarrow> exn option \<times> 'w"
  driver_wait :: "nat \<Rightarrow> 'e condition \<Rightarrow> 'w \<Rightarrow> exn option \<times> 'w"
  driver_click :: "'e \<Rightarrow> 'w \<Rightarrow> exn option \<times> 'w"
  driver_quit :: "'w \<Rightarrow> exn option \<times> 'w"
  find_elements :: "string \<Rightarrow> 'w \<Rightarrow> exn + 'e list"
  find_element :: "string \<Rightarrow> 'w \<Rightarrow> exn + 'e"
  element_text :: "'e \<Rightarrow> 'w \<Rightarrow> exn + string"
  element_img_src :: "'e \<Rightarrow> 'w \<Rightarrow> exn + string option"
  driver_current_url :: "'w \<Rightarrow> exn + string"
  make_output_dir :: "'w \<Rightarrow> exn option \<times> 'w"
  load_config :: "'w \<Rightarrow> exn + site list option"
  writer_open :: "'w \<Rightarrow> exn option \<times> 'w"
  writer_close :: "'w \<Rightarrow> exn option \<times> 'w"
  save_sheet :: "nat \<Rightarrow> site \<Rightarrow> payload \<Rightarrow> 'w \<Rightarrow> (exn + bool) \<times> 'w"

record 'w state =
  world :: 'w
  trace :: "event list"

definition emit :: "event \<Rightarrow> 'w state \<Rightarrow> 'w state" where
  "emit ev st = st\<lparr>trace := trace st @ [ev]\<rparr>"

section \<open>The API fetcher\<close>

text \<open>\<^verbatim>\<open>data.get(key, {})\<close>: only a dict has \<^verbatim>\<open>get\<close>.\<close>

fun json_get :: "json \<Rightarrow> string \<Rightarrow> exn + json" where
  "json_get (JDict kvs) key = Inr (case map_of kvs key of None \<Rightarrow> JDict [] | Some v \<Rightarrow> v)"
| "json_get _ key = Inl AttributeError"

text \<open>\<^verbatim>\<open>for key in json_path: data = data.get(key, {})\<close>\<close>

fun descend :: "json \<Rightarrow> string list \<Rightarrow> exn + json" where
  "descend data [] = Inr data"
| "descend data (key # keys) =
     (case json_get data key of Inl e \<Rightarrow> Inl e | Inr d \<Rightarrow> descend d keys)"

text \<open>\<^verbatim>\<open>[data] if isinstance(data, dict) else data\<close>\<close>

fun wrap_dict :: "json \<Rightarrow> json" where
  "wrap_dict (JDict kvs) = JList [JDict kvs]"
| "wrap_dict data = data"

text \<open>\<^verbatim>\<open>range(retries)\<close>\<close>

definition py_range :: "int \<Rightarrow> int list" where
  "py_range n = [0..n - 1]"

text \<open>\<^verbatim>\<open>headers or {}\<close>\<close>

fun headers_or_empty :: "(string \<times> string) list option \<Rightarrow> (string \<times> string) list" where
  "headers_or_empty None = []"
| "headers_or_empty (Some h) = h"

text \<open>The body of \<^verbatim>\<open>for attempt in range(retries)\<close>, over the attempts still to run.
  Falling out of the loop returns \<^verbatim>\<open>None\<close>. Only \<^verbatim>\<open>RequestException\<close> is caught.\<close>

fun api_attempts ::
  "('w, 'e) env \<Rightarrow> string \<Rightarrow> string list \<Rightarrow> (string \<times> string) list option \<Rightarrow> int \<Rightarrow>
   int list \<Rightarrow> 'w state \<Rightarrow> (exn + json) \<times> 'w state" where
  "api_attempts env url json_path headers retries [] st = (Inr JNone, st)"
| "api_attempts env url json_path headers retries (attempt # rest) st =
     (case requests_get_json env url (headers_or_empty headers) (world st) of
        (Inr body, w) \<Rightarrow>
          (let st1 = emit (Request url) (st\<lparr>world := w\<rparr>) in
           case descend body json_path of
             Inl e \<Rightarrow> (Inl e, st1)
           | Inr data \<Rightarrow> (Inr (wrap_dict data), emit (Log Info) st1))
      | (Inl e, w) \<Rightarrow>
          (let st1 = emit (Request url) (st\<lparr>world := w\<rparr>) in
           if e = RequestException then
             (let st2 = emit (Log Warning) st1 in
              if attempt = retries - 1 then (Inr JNone, emit (Log Error) st2)
              else api_attempts env url json_path headers retries rest (emit (Sleep 2) st2))
           else (Inl e, st1)))"

definition scrape_api ::
  "('w, 'e) env \<Rightarrow> string \<Rightarrow> string list \<Rightarrow> (string \<times> string) list option \<Rightarrow> int \<Rightarrow>
   'w state \<Rightarrow> (exn + json) \<times> 'w state" where
  "scrape_api env url json_path headers retries st =
     api_attempts env url json_path headers retries (py_range retries) st"

section \<open>Strings, truth values and dicts of Python\<close>

text \<open>\<^verbatim>\<open>str.lower()\<close>: the letters A to Z and the capital letters 192 to 222 (215, the
  multiplication sign, is not one) move up by 32; every other character stays.\<close>

definition lower_char :: "char \<Rightarrow> char" where
  "lower_char c =
     (let n = (of_char c :: nat)
      in if (65 \<le> n \<and> n \<le> 90) \<or> (192 \<le> n \<and> n \<le> 222 \<and> n \<noteq> 215)
         then char_of (n + 32) else c)"

definition str_lower :: "string \<Rightarrow> string" where
  "str_lower s = map lower_char s"

text \<open>\<^verbatim>\<open>str.strip()\<close>: the whitespace is tab, line feed, vertical tab, form feed,
  carriage return, the four separators 28 to 31, the space, the next-line character 133
  and the no-break space 160.\<close>

definition is_space :: "char \<Rightarrow> bool" where
  "is_space c =
     (let n = (of_char c :: nat)
      in (9 \<le> n \<and> n \<le> 13) \<or> (28 \<le> n \<and> n \<le> 32) \<or> n = 133 \<or> n = 160)"

definition str_strip :: "string \<Rightarrow> string" where
  "str_strip s = rev (dropWhile is_space (rev (dropWhile is_space s)))"

text \<open>Truth value of an optional string: \<^verbatim>\<open>None\<close> and \<^verbatim>\<open>""\<close> are false.\<close>

fun truthy :: "string option \<Rightarrow> bool" where
  "truthy None = False"
| "truthy (Some s) = (s \<noteq> [])"

text \<open>\<^verbatim>\<open>d[k] = v\<close> on an insertion-ordered dict: an existing key keeps its place.\<close>

fun dict_set :: "string \<Rightarrow> 'v \<Rightarrow> (string \<times> 'v) list \<Rightarrow> (string \<times> 'v) list" where
  "dict_set k v [] = [(k, v)]"
| "dict_set k v (p # ps) = (if fst p = k then (k, v) # ps else p # dict_set k v ps)"

section \<open>The static page walker\<close>

text \<open>\<^verbatim>\<open>texts if len(texts) > 1 else texts[0] if texts else None\<close>\<close>

definition scalar_or_list :: "string list \<Rightarrow> val" where
  "scalar_or_list texts =
     (if length texts > 1 then VList (map VStr texts)
      else case texts of t # _ \<Rightarrow> VStr t | [] \<Rightarrow> VNone)"

text \<open>\<^verbatim>\<open>el.get("src")\<close> as a value.\<close>

fun attr_val :: "string option \<Rightarrow> val" where
  "attr_val None = VNone"
| "attr_val (Some a) = VStr a"

text \<open>One turn of \<^verbatim>\<open>for name, selector in selectors.items()\<close> in \<^verbatim>\<open>scrape_static\<close>: the
  record so far and the flag \<^verbatim>\<open>any_data_found\<close> go in and come out.\<close>

definition static_field :: "soup \<Rightarrow> string \<times> string \<Rightarrow> row \<times> bool \<Rightarrow> row \<times> bool" where
  "static_field soup item acc =
     (let name = fst item; selector = snd item; data = fst acc; any_data_found = snd acc;
          elements = soup selector
      in if elements \<noteq> [] then
           (if str_lower name \<in> set [''images'', ''colors'', ''sizes'']
            then (dict_set name
                    (VList (map (\<lambda>el. if str_lower name = ''images'' then attr_val (tag_src el)
                                       else VStr (tag_text el)) elements)) data, True)
            else (let texts = filter (\<lambda>t. t \<noteq> []) (map tag_text elements)
                  in (dict_set name (scalar_or_list texts) data, True)))
         else (dict_set name VNone data, any_data_found))"

fun static_fields :: "soup \<Rightarrow> (string \<times> string) list \<Rightarrow> row \<times> bool \<Rightarrow> row \<times> bool" where
  "static_fields soup [] acc = acc"
| "static_fields soup (item # items) acc = static_fields soup items (static_field soup item acc)"

text \<open>\<^verbatim>\<open>if any_data_found: results.append(data)\<close>\<close>

definition append_if_found :: "row \<times> bool \<Rightarrow> row list \<Rightarrow> row list" where
  "append_if_found rec results = (if snd rec then results @ [fst rec] else results)"

text \<open>\<^verbatim>\<open>soup.select_one(selector)\<close>: the first match, if any.\<close>

definition select_one :: "soup \<Rightarrow> string \<Rightarrow> tag option" where
  "select_one soup selector = (case soup selector of [] \<Rightarrow> None | el # _ \<Rightarrow> Some el)"

text \<open>The pagination step of \<^verbatim>\<open>scrape_static\<close>: the next value of \<^verbatim>\<open>current_url\<close>.\<close>

definition static_next ::
  "('w, 'e) env \<Rightarrow> string \<Rightarrow> string option \<Rightarrow> soup \<Rightarrow> string option" where
  "static_next env url pagination_selector soup =
     (case pagination_selector of
        None \<Rightarrow> None
      | Some selector \<Rightarrow>
          if selector = [] then None
          else (case select_one soup selector of
                  None \<Rightarrow> None
                | Some next_page \<Rightarrow>
                    if truthy (tag_href next_page)
                    then (case tag_href next_page of
                            Some href \<Rightarrow> Some (urljoin env url href) | None \<Rightarrow> None)
                    else None))"

text \<open>\<^verbatim>\<open>while current_url and pages_scraped < limit\<close>. A failed request ends the loop and
  keeps the results; any other exception leaves the function.\<close>

function static_loop ::
  "('w, 'e) env \<Rightarrow> string \<Rightarrow> (string \<times> string) list \<Rightarrow> string option \<Rightarrow> int \<Rightarrow>
   string option \<Rightarrow> int \<Rightarrow> row list \<Rightarrow> 'w state \<Rightarrow> (exn + row list) \<times> 'w state" where
  "static_loop env url selectors pagination_selector limit current_url pages_scraped results st =
     (if truthy current_url \<and> pages_scraped < limit then
        (case current_url of
           None \<Rightarrow> (Inr results, st)
         | Some cur \<Rightarrow>
            (case requests_get_soup env cur (world st) of
               (Inl e, w) \<Rightarrow>
                 (if e = RequestException
                  then (Inr results, emit (Log Error) (emit (Request cur) (st\<lparr>world := w\<rparr>)))
                  else (Inl e, emit (Request cur) (st\<lparr>world := w\<rparr>)))
             | (Inr soup, w) \<Rightarrow>
                 static_loop env url selectors pagination_selector limit
                   (static_next env url pagination_selector soup)
                   (pages_scraped + 1)
                   (append_if_found (static_fields soup selectors ([], False)) results)
                   (emit (Log Info) (emit (Request cur) (st\<lparr>world := w\<rparr>)))))
      else (Inr results, st))"
  by pat_completeness auto
termination
  by (relation "measure (\<lambda>(env, url, selectors, pagination_selector, limit, current_url,
                            pages_scraped, results, st). nat (limit - pages_scraped))") auto

definition scrape_static ::
  "('w, 'e) env \<Rightarrow> string \<Rightarrow> (string \<times> string) list \<Rightarrow> string option \<Rightarrow> int \<Rightarrow>
   'w state \<Rightarrow> (exn + row list) \<times> 'w state" where
  "scrape_static env url selectors pagination_selector limit st =
     static_loop env url selectors pagination_selector limit (Some url) 0 [] st"

section \<open>The dynamic page walker\<close>

text \<open>\<^verbatim>\<open>get_driver\<close>: an unsupported browser raises \<^verbatim>\<open>ValueError\<close> inside the \<^verbatim>\<open>try\<close>; the
  handler logs whatever was raised and raises it again.\<close>

definition get_driver :: "('w, 'e) env \<Rightarrow> string \<Rightarrow> 'w state \<Rightarrow> exn option \<times> 'w state" where
  "get_driver env browser st =
     (if str_lower browser = ''chrome'' \<or> str_lower browser = ''firefox''
         \<or> str_lower browser = ''safari''
      then (case webdriver_new env (str_lower browser) (world st) of
              (None, w) \<Rightarrow> (None, st\<lparr>world := w\<rparr>)
            | (Some e, w) \<Rightarrow> (Some e, emit (Log Error) (st\<lparr>world := w\<rparr>)))
      else (Some ValueError, emit (Log Error) st))"

definition ready_marker :: string where
  "ready_marker = ''h1.ty-product-block-title bdi''"

text \<open>An expected condition is a function object, and a function object is true; Python's
  \<^verbatim>\<open>a or b\<close> is \<^verbatim>\<open>a\<close> when \<^verbatim>\<open>a\<close> is true.\<close>

definition truthy_condition :: "'e condition \<Rightarrow> bool" where
  "truthy_condition c = True"

definition py_or :: "'e condition \<Rightarrow> 'e condition \<Rightarrow> 'e condition" where
  "py_or a b = (if truthy_condition a then a else b)"

text \<open>\<^verbatim>\<open>[el.text.strip() for el in elements if el.text.strip()]\<close>: the first read that
  raises ends the comprehension. Reading does not change the world, so the two reads of
  one element agree and are one read here.\<close>

fun collect_texts :: "('w, 'e) env \<Rightarrow> 'e list \<Rightarrow> 'w \<Rightarrow> exn + string list" where
  "collect_texts env [] w = Inr []"
| "collect_texts env (el # els) w =
     (case element_text env el w of
        Inl e \<Rightarrow> Inl e
      | Inr t \<Rightarrow>
          (case collect_texts env els w of
             Inl e \<Rightarrow> Inl e
           | Inr ts \<Rightarrow> Inr (if str_strip t \<noteq> [] then str_strip t # ts else ts)))"

text \<open>The same for the \<^verbatim>\<open>src\<close> of the image inside each element.\<close>

fun collect_srcs :: "('w, 'e) env \<Rightarrow> 'e list \<Rightarrow> 'w \<Rightarrow> exn + string list" where
  "collect_srcs env [] w = Inr []"
| "collect_srcs env (el # els) w =
     (case element_img_src env el w of
        Inl e \<Rightarrow> Inl e
      | Inr src \<Rightarrow>
          (case collect_srcs env els w of
             Inl e \<Rightarrow> Inl e
           | Inr srcs \<Rightarrow> Inr (case src of
                                Some a \<Rightarrow> if a \<noteq> [] then a # srcs else srcs
                              | None \<Rightarrow> srcs)))"

text \<open>The value of a field whose selector matched: the three branches on the name.\<close>

definition dynamic_value :: "('w, 'e) env \<Rightarrow> string \<Rightarrow> 'e list \<Rightarrow> 'w \<Rightarrow> exn + val" where
  "dynamic_value env name elements w =
     (if str_lower name \<in> set [''images'']
      then (case collect_srcs env elements w of
              Inl e \<Rightarrow> Inl e | Inr srcs \<Rightarrow> Inr (VList (map VStr srcs)))
      else if str_lower name \<in> set [''colors'', ''sizes'']
      then (case collect_texts env elements w of
              Inl e \<Rightarrow> Inl e | Inr texts \<Rightarrow> Inr (VList (map VStr texts)))
      else (case collect_texts env elements w of
              Inl e \<Rightarrow> Inl e
            | Inr texts \<Rightarrow> Inr (case texts of t # _ \<Rightarrow> VStr t | [] \<Rightarrow> VNone)))"

text \<open>One turn of \<^verbatim>\<open>for name, selector in selectors.items()\<close> in \<^verbatim>\<open>scrape_dynamic\<close>, the
  same for the base record and for a variation record. The flag is set before the value
  is computed, so it stays set when computing the value raises.\<close>

definition dynamic_field ::
  "('w, 'e) env \<Rightarrow> string \<times> string \<Rightarrow> row \<times> bool \<times> 'w state \<Rightarrow> row \<times> bool \<times> 'w state" where
  "dynamic_field env item acc =
     (let name = fst item; selector = snd item;
          data = fst acc; any_data_found = fst (snd acc); st = snd (snd acc)
      in if name \<in> set [''color_variation'', ''size_variation''] then acc
         else (case find_elements env selector (world st) of
                 Inl e \<Rightarrow> (dict_set name VNone data, any_data_found, emit (Log Warning) st)
               | Inr elements \<Rightarrow>
                   if elements \<noteq> [] then
                     (case dynamic_value env name elements (world st) of
                        Inl e \<Rightarrow> (dict_set name VNone data, True, emit (Log Warning) st)
                      | Inr v \<Rightarrow> (dict_set name v data, True, st))
                   else (dict_set name VNone data, any_data_found, st)))"

fun dynamic_fields ::
  "('w, 'e) env \<Rightarrow> (string \<times> string) list \<Rightarrow> row \<times> bool \<times> 'w state \<Rightarrow>
   row \<times> bool \<times> 'w state" where
  "dynamic_fields env [] acc = acc"
| "dynamic_fields env (item # items) acc = dynamic_fields env items (dynamic_field env item acc)"

text \<open>The click on a variation element and the wait that follows it.\<close>

definition click_and_wait :: "('w, 'e) env \<Rightarrow> 'e \<Rightarrow> 'w state \<Rightarrow> exn option \<times> 'w state" where
  "click_and_wait env el st =
     (case driver_click env el (world st) of
        (Some e, w) \<Rightarrow> (Some e, st\<lparr>world := w\<rparr>)
      | (None, w) \<Rightarrow>
          (case driver_wait env 5
                  (py_or (Staleness_of el) (Presence_of_element_located ready_marker)) w of
             (r, w') \<Rightarrow> (r, st\<lparr>world := w'\<rparr>)))"

text \<open>\<^verbatim>\<open>if el: try: click and wait; except Exception: log; continue\<close>. The result says
  whether the loop body goes on; the placeholder \<^verbatim>\<open>None\<close> is not clicked.\<close>

definition trigger :: "('w, 'e) env \<Rightarrow> 'e option \<Rightarrow> 'w state \<Rightarrow> bool \<times> 'w state" where
  "trigger env el st =
     (case el of
        None \<Rightarrow> (True, st)
      | Some e \<Rightarrow>
          (case click_and_wait env e st of
             (None, st1) \<Rightarrow> (True, st1)
           | (Some x, st1) \<Rightarrow> (False, emit (Log Warning) st1)))"

text \<open>\<^verbatim>\<open>el.text.strip() if el else "N/A"\<close>, outside every \<^verbatim>\<open>try\<close>.\<close>

definition label_text :: "('w, 'e) env \<Rightarrow> 'e option \<Rightarrow> 'w \<Rightarrow> exn + string" where
  "label_text env el w =
     (case el of
        None \<Rightarrow> Inr ''N/A''
      | Some e \<Rightarrow> (case element_text env e w of Inl x \<Rightarrow> Inl x | Inr t \<Rightarrow> Inr (str_strip t)))"

definition variation_record ::
  "('w, 'e) env \<Rightarrow> (string \<times> string) list \<Rightarrow> 'e option \<Rightarrow> 'e option \<Rightarrow> 'w state \<Rightarrow>
   (exn + row \<times> bool) \<times> 'w state" where
  "variation_record env selectors color_el size_el st =
     (case label_text env color_el (world st) of
        Inl e \<Rightarrow> (Inl e, st)
      | Inr c \<Rightarrow>
          (case label_text env size_el (world st) of
             Inl e \<Rightarrow> (Inl e, st)
           | Inr s \<Rightarrow>
               (let r = dynamic_fields env selectors
                          ([(''variation_color'', VStr c), (''variation_size'', VStr s)], False, st)
                in (Inr (fst r, fst (snd r)), snd (snd r)))))"

text \<open>\<^verbatim>\<open>for size_idx, size_el in enumerate(size_elements)\<close>\<close>

fun size_loop ::
  "('w, 'e) env \<Rightarrow> (string \<times> string) list \<Rightarrow> 'e option \<Rightarrow> 'e option list \<Rightarrow> row list \<Rightarrow>
   'w state \<Rightarrow> (exn + row list) \<times> 'w state" where
  "size_loop env selectors color_el [] results st = (Inr results, st)"
| "size_loop env selectors color_el (size_el # rest) results st =
     (case trigger env size_el st of
        (False, st1) \<Rightarrow> size_loop env selectors color_el rest results st1
      | (True, st1) \<Rightarrow>
          (case variation_record env selectors color_el size_el st1 of
             (Inl e, st2) \<Rightarrow> (Inl e, st2)
           | (Inr var, st2) \<Rightarrow>
               size_loop env selectors color_el rest (append_if_found var results) st2))"

text \<open>\<^verbatim>\<open>for color_idx, color_el in enumerate(color_elements)\<close>\<close>

fun color_loop ::
  "('w, 'e) env \<Rightarrow> (string \<times> string) list \<Rightarrow> 'e option list \<Rightarrow> 'e option list \<Rightarrow> row list \<Rightarrow>
   'w state \<Rightarrow> (exn + row list) \<times> 'w state" where
  "color_loop env selectors [] size_elements results st = (Inr results, st)"
| "color_loop env selectors (color_el # rest) size_elements results st =
     (case trigger env color_el st of
        (False, st1) \<Rightarrow> color_loop env selectors rest size_elements results st1
      | (True, st1) \<Rightarrow>
          (case size_loop env selectors color_el size_elements results st1 of
             (Inl e, st2) \<Rightarrow> (Inl e, st2)
           | (Inr results', st2) \<Rightarrow> color_loop env selectors rest size_elements results' st2))"

text \<open>\<^verbatim>\<open>driver.find_elements(By.CSS_SELECTOR, sel) if sel else [None]\<close>, outside every
  \<^verbatim>\<open>try\<close>.\<close>

definition variation_elements ::
  "('w, 'e) env \<Rightarrow> string option \<Rightarrow> 'w \<Rightarrow> exn + 'e option list" where
  "variation_elements env selector w =
     (case selector of
        None \<Rightarrow> Inr [None]
      | Some sel \<Rightarrow>
          if sel = [] then Inr [None]
          else (case find_elements env sel w of
                  Inl e \<Rightarrow> Inl e | Inr els \<Rightarrow> Inr (map Some els)))"

text \<open>What the loop does with one page once its ready marker is there: the base record,
  then the variation records.\<close>

definition dynamic_page ::
  "('w, 'e) env \<Rightarrow> (string \<times> string) list \<Rightarrow> row list \<Rightarrow> 'w state \<Rightarrow>
   (exn + row list) \<times> 'w state" where
  "dynamic_page env selectors results st =
     (let base = dynamic_fields env selectors ([], False, st);
          results1 = append_if_found (fst base, fst (snd base)) results;
          st1 = snd (snd base);
          color_variation_selector = map_of selectors ''color_variation'';
          size_variation_selector = map_of selectors ''size_variation''
      in if truthy color_variation_selector \<or> truthy size_variation_selector then
           (case variation_elements env color_variation_selector (world st1) of
              Inl e \<Rightarrow> (Inl e, st1)
            | Inr color_elements \<Rightarrow>
                (case variation_elements env size_variation_selector (world st1) of
                   Inl e \<Rightarrow> (Inl e, st1)
                 | Inr size_elements \<Rightarrow>
                     color_loop env selectors color_elements size_elements results1 st1))
         else (Inr results1, st1))"

text \<open>The second half of that, on its own: the variation records of the page, appended
  to the results that already hold what the base extraction gave.\<close>

definition page_variations ::
  "('w, 'e) env \<Rightarrow> (string \<times> string) list \<Rightarrow> row list \<Rightarrow> 'w state \<Rightarrow>
   (exn + row list) \<times> 'w state" where
  "page_variations env selectors results1 st1 =
     (let color_variation_selector = map_of selectors ''color_variation'';
          size_variation_selector = map_of selectors ''size_variation''
      in if truthy color_variation_selector \<or> truthy size_variation_selector then
           (case variation_elements env color_variation_selector (world st1) of
              Inl e \<Rightarrow> (Inl e, st1)
            | Inr color_elements \<Rightarrow>
                (case variation_elements env size_variation_selector (world st1) of
                   Inl e \<Rightarrow> (Inl e, st1)
                 | Inr size_elements \<Rightarrow>
                     color_loop env selectors color_elements size_elements results1 st1))
         else (Inr results1, st1))"

text \<open>The pagination step of \<^verbatim>\<open>scrape_dynamic\<close>: the next value of \<^verbatim>\<open>current_url\<close>.
  Anything raised in it is logged and ends the pagination.\<close>

definition dynamic_next ::
  "('w, 'e) env \<Rightarrow> string option \<Rightarrow> string \<Rightarrow> 'w state \<Rightarrow> string option \<times> 'w state" where
  "dynamic_next env pagination_selector cur st =
     (case pagination_selector of
        None \<Rightarrow> (None, st)
      | Some selector \<Rightarrow>
          if selector = [] then (None, st)
          else (case find_element env selector (world st) of
                  Inl e \<Rightarrow> (None, emit (Log Info) st)
                | Inr next_btn \<Rightarrow>
                    (case driver_click env next_btn (world st) of
                       (Some e, w) \<Rightarrow> (None, emit (Log Info) (st\<lparr>world := w\<rparr>))
                     | (None, w) \<Rightarrow>
                         (case driver_wait env 5 (Url_changes cur) w of
                            (Some e, w') \<Rightarrow> (None, emit (Log Info) (st\<lparr>world := w'\<rparr>))
                          | (None, w') \<Rightarrow>
                              (case driver_current_url env w' of
                                 Inl e \<Rightarrow> (None, emit (Log Info) (st\<lparr>world := w'\<rparr>))
                               | Inr u \<Rightarrow> (Some u, st\<lparr>world := w'\<rparr>))))))"

text \<open>\<^verbatim>\<open>while current_url and pages_scraped < limit\<close> of \<^verbatim>\<open>scrape_dynamic\<close>. A ready
  marker that does not come ends the loop and keeps the results.\<close>

function dynamic_loop ::
  "('w, 'e) env \<Rightarrow> (string \<times> string) list \<Rightarrow> string option \<Rightarrow> int \<Rightarrow>
   string option \<Rightarrow> int \<Rightarrow> row list \<Rightarrow> 'w state \<Rightarrow> (exn + row list) \<times> 'w state" where
  "dynamic_loop env selectors pagination_selector limit current_url pages_scraped results st =
     (if truthy current_url \<and> pages_scraped < limit then
        (case current_url of
           None \<Rightarrow> (Inr results, st)
         | Some cur \<Rightarrow>
            (case driver_get env cur (world st) of
               (Some e, w) \<Rightarrow> (Inl e, emit (Navigate cur) (st\<lparr>world := w\<rparr>))
             | (None, w) \<Rightarrow>
                 (case driver_wait env 10 (Presence_of_element_located ready_marker) w of
                    (Some e, w') \<Rightarrow>
                      (Inr results, emit (Log Error) (emit (Navigate cur) (st\<lparr>world := w'\<rparr>)))
                  | (None, w') \<Rightarrow>
                      (case dynamic_page env selectors results
                              (emit (Navigate cur) (st\<lparr>world := w'\<rparr>)) of
                         (Inl e, st1) \<Rightarrow> (Inl e, st1)
                       | (Inr results', st1) \<Rightarrow>
                           (case dynamic_next env pagination_selector cur st1 of
                              (next_url, st2) \<Rightarrow>
                                dynamic_loop env selectors pagination_selector limit next_url
                                  (pages_scraped + 1) results' (emit (Log Info) st2))))))
      else (Inr results, st))"
  by pat_completeness auto
termination
  by (relation "measure (\<lambda>(env, selectors, pagination_selector, limit, current_url,
                            pages_scraped, results, st). nat (limit - pages_scraped))") auto

text \<open>\<^verbatim>\<open>scrape_dynamic\<close>: the driver is acquired before the \<^verbatim>\<open>try\<close>; the \<^verbatim>\<open>finally\<close>
  quits it however the loop ended.\<close>

definition scrape_dynamic ::
  "('w, 'e) env \<Rightarrow> string \<Rightarrow> (string \<times> string) list \<Rightarrow> string option \<Rightarrow> int \<Rightarrow> string \<Rightarrow>
   'w state \<Rightarrow> (exn + row list) \<times> 'w state" where
  "scrape_dynamic env url selectors pagination_selector limit browser st =
     (case get_driver env browser st of
        (Some e, st1) \<Rightarrow> (Inl e, st1)
      | (None, st1) \<Rightarrow>
          (case dynamic_loop env selectors pagination_selector limit (Some url) 0 [] st1 of
             (r, st2) \<Rightarrow>
               (case driver_quit env (world st2) of
                  (Some e, w) \<Rightarrow> (Inl e, emit Quit (st2\<lparr>world := w\<rparr>))
                | (None, w) \<Rightarrow> (r, emit Quit (st2\<lparr>world := w\<rparr>)))))"

section \<open>The orchestrator\<close>

text \<open>Truth value of what a scraper returned, for \<^verbatim>\<open>if data:\<close>.\<close>

fun json_truthy :: "json \<Rightarrow> bool" where
  "json_truthy JNone = False"
| "json_truthy (JBool b) = b"
| "json_truthy (JInt i) = (i \<noteq> 0)"
| "json_truthy (JStr s) = (s \<noteq> [])"
| "json_truthy (JList xs) = (xs \<noteq> [])"
| "json_truthy (JDict kvs) = (kvs \<noteq> [])"

fun payload_truthy :: "payload \<Rightarrow> bool" where
  "payload_truthy (Rows rows) = (rows \<noteq> [])"
| "payload_truthy (Api data) = json_truthy data"

text \<open>The dispatch on \<^verbatim>\<open>site["type"]\<close>. \<open>Inr None\<close> is the \<^verbatim>\<open>continue\<close> of the unknown
  type. \<^verbatim>\<open>site["json_path"]\<close> is a plain subscript: an absent key raises.\<close>

definition scrape_site ::
  "('w, 'e) env \<Rightarrow> site \<Rightarrow> string \<Rightarrow> string \<Rightarrow> (string \<times> string) list \<Rightarrow> 'w state \<Rightarrow>
   (exn + payload option) \<times> 'w state" where
  "scrape_site env site url type selectors st =
     (if type = ''static'' then
        (case scrape_static env url selectors (site_pagination site)
                (case site_limit site of None \<Rightarrow> 5 | Some l \<Rightarrow> l) st of
           (Inl e, st1) \<Rightarrow> (Inl e, st1)
         | (Inr rows, st1) \<Rightarrow> (Inr (Some (Rows rows)), st1))
      else if type = ''dynamic'' then
        (case scrape_dynamic env url selectors (site_pagination site)
                (case site_limit site of None \<Rightarrow> 5 | Some l \<Rightarrow> l)
                (case site_browser site of None \<Rightarrow> ''chrome'' | Some b \<Rightarrow> b) st of
           (Inl e, st1) \<Rightarrow> (Inl e, st1)
         | (Inr rows, st1) \<Rightarrow> (Inr (Some (Rows rows)), st1))
      else if type = ''api'' then
        (let headers = (case site_api_key site of
                          Some k \<Rightarrow> [(''Authorization'', ''Bearer '' @ k)] | None \<Rightarrow> [])
         in case site_json_path site of
              None \<Rightarrow> (Inl (KeyError ''json_path''), st)
            | Some json_path \<Rightarrow>
                (case scrape_api env url json_path (Some headers) 3 st of
                   (Inl e, st1) \<Rightarrow> (Inl e, st1)
                 | (Inr data, st1) \<Rightarrow> (Inr (Some (Api data)), st1)))
      else (Inr None, emit (Log Warning) st))"

text \<open>\<^verbatim>\<open>all(key in site for key in ["url", "type", "selectors"])\<close>\<close>

definition required_keys_present :: "site \<Rightarrow> bool" where
  "required_keys_present site =
     (site_url site \<noteq> None \<and> site_type site \<noteq> None \<and> site_selectors site \<noteq> None)"

text \<open>\<^verbatim>\<open>for idx, site in enumerate(configs.get("websites", []))\<close>. There is no
  \<^verbatim>\<open>try\<close> in the loop: whatever a scraper or the sheet writer raises ends the loop.
  The sheet writer answers whether it wrote the sheet or found the table empty.\<close>

fun run_sites ::
  "('w, 'e) env \<Rightarrow> nat \<Rightarrow> site list \<Rightarrow> 'w state \<Rightarrow> exn option \<times> 'w state" where
  "run_sites env idx [] st = (None, st)"
| "run_sites env idx (site # rest) st =
     (if \<not> required_keys_present site then run_sites env (Suc idx) rest (emit (Log Error) st)
      else
       (case (site_url site, site_type site, site_selectors site) of
          (Some url, Some type, Some selectors) \<Rightarrow>
            (case scrape_site env site url type selectors (emit (Log Info) st) of
               (Inl e, st1) \<Rightarrow> (Some e, st1)
             | (Inr None, st1) \<Rightarrow> run_sites env (Suc idx) rest st1
             | (Inr (Some data), st1) \<Rightarrow>
                 if payload_truthy data then
                   (case save_sheet env idx site data (world st1) of
                      (Inl e, w) \<Rightarrow> (Some e, st1\<lparr>world := w\<rparr>)
                    | (Inr saved, w) \<Rightarrow>
                        run_sites env (Suc idx) rest
                          (if saved then emit (Log Info) (emit (Sheet idx) (st1\<lparr>world := w\<rparr>))
                           else emit (Log Warning) (st1\<lparr>world := w\<rparr>)))
                 else run_sites env (Suc idx) rest (emit (Log Warning) st1))
        | _ \<Rightarrow> run_sites env (Suc idx) rest (emit (Log Error) st)))"

text \<open>\<^verbatim>\<open>run_scraper\<close>. The output directory is made before anything else. A
  configuration that cannot be loaded is logged and ends the run quietly. The loop over
  the sites runs inside \<^verbatim>\<open>with pd.ExcelWriter(...) as writer\<close>: the writer is opened
  before the loop and closed when the block is left, also when the loop raised. What the
  close raises replaces what the loop raised (closing a writer that holds no sheet
  raises an index error); when it raises nothing, the loop's exception goes on, and
  after a loop that ended normally the completion is logged.\<close>

definition run_scraper :: "('w, 'e) env \<Rightarrow> 'w state \<Rightarrow> exn option \<times> 'w state" where
  "run_scraper env st =
     (case make_output_dir env (world st) of
        (Some e, w) \<Rightarrow> (Some e, st\<lparr>world := w\<rparr>)
      | (None, w) \<Rightarrow>
          (case load_config env w of
             Inl e \<Rightarrow> (None, emit (Log Error) (st\<lparr>world := w\<rparr>))
           | Inr websites \<Rightarrow>
               (case writer_open env w of
                  (Some e, w1) \<Rightarrow> (Some e, st\<lparr>world := w1\<rparr>)
                | (None, w1) \<Rightarrow>
                    (case run_sites env 0 (case websites of None \<Rightarrow> [] | Some ws \<Rightarrow> ws)
                            (st\<lparr>world := w1\<rparr>) of
                       (raised, st1) \<Rightarrow>
                         (case writer_close env (world st1) of
                            (Some e', w2) \<Rightarrow> (Some e', st1\<lparr>world := w2\<rparr>)
                          | (None, w2) \<Rightarrow>
                              (case raised of
                                 Some e \<Rightarrow> (Some e, st1\<lparr>world := w2\<rparr>)
                               | None \<Rightarrow> (None, emit (Log Info) (st1\<lparr>world := w2\<rparr>))))))))"

text \<open>Reading the trace.\<close>

fun is_request :: "event \<Rightarrow> bool" where
  "is_request (Request u) = True"
| "is_request ev = False"

fun is_sleep :: "event \<Rightarrow> bool" where
  "is_sleep (Sleep n) = True"
| "is_sleep ev = False"

fun is_navigate :: "event \<Rightarrow> bool" where
  "is_navigate (Navigate u) = True"
| "is_navigate ev = False"

text \<open>The world after \<open>k\<close> requests to the endpoint, and what the request after those
  \<open>k\<close> answers: attempt \<open>k\<close> of a call (counted from 0) sees \<open>api_outcome \<dots> k\<close>.\<close>

fun api_world ::
  "('w, 'e) env \<Rightarrow> string \<Rightarrow> (string \<times> string) list option \<Rightarrow> nat \<Rightarrow> 'w \<Rightarrow> 'w" where
  "api_world env url headers 0 w = w"
| "api_world env url headers (Suc k) w =
     api_world env url headers k (snd (requests_get_json env url (headers_or_empty headers) w))"

definition api_outcome ::
  "('w, 'e) env \<Rightarrow> string \<Rightarrow> (string \<times> string) list option \<Rightarrow> nat \<Rightarrow> 'w \<Rightarrow> exn + json" where
  "api_outcome env url headers k w =
     fst (requests_get_json env url (headers_or_empty headers) (api_world env url headers k w))"

section \<open>Concrete worlds\<close>

text \<open>A world in which nothing works: every request and every driver call raises, every
  lookup finds nothing, no sheet can be written, and closing the writer, which then
  holds no sheet, raises. The worlds below change the operations they need. The world
  state is a counter of the calls that changed it.\<close>

definition dead_env :: "(nat, nat) env" where
  "dead_env = \<lparr>
     requests_get_json = (\<lambda>url headers w. (Inl RequestException, Suc w)),
     requests_get_soup = (\<lambda>url w. (Inl RequestException, Suc w)),
     urljoin = (\<lambda>base href. href),
     webdriver_new = (\<lambda>browser w. (Some WebDriverException, w)),
     driver_get = (\<lambda>url w. (Some WebDriverException, w)),
     driver_wait = (\<lambda>timeout cond w. (Some TimeoutException, w)),
     driver_click = (\<lambda>el w. (Some WebDriverException, w)),
     driver_quit = (\<lambda>w. (None, w)),
     find_elements = (\<lambda>selector w. Inr []),
     find_element = (\<lambda>selector w. Inl WebDriverException),
     element_text = (\<lambda>el w. Inl WebDriverException),
     element_img_src = (\<lambda>el w. Inl WebDriverException),
     driver_current_url = (\<lambda>w. Inl WebDriverException),
     make_output_dir = (\<lambda>w. (None, w)),
     load_config = (\<lambda>w. Inl ValueError),
     writer_open = (\<lambda>w. (None, w)),
     writer_close = (\<lambda>w. (Some IndexError, w)),
     save_sheet = (\<lambda>idx site data w. (Inl ValueError, w)) \<rparr>"

text \<open>An endpoint that fails twice and then answers \<^verbatim>\<open>{"data": {"id": 7}}\<close>.\<close>

definition flaky_api_env :: "(nat, nat) env" where
  "flaky_api_env = dead_env\<lparr> requests_get_json := (\<lambda>url headers w.
     (if w < 2 then Inl RequestException
      else Inr (JDict [(''data'', JDict [(''id'', JInt 7)])]), Suc w)) \<rparr>"

definition start :: "nat state" where
  "start = \<lparr> world = 0, trace = [] \<rparr>"

text \<open>A stretch of the run that only logs, and one that logs and navigates at most
  \<open>n\<close> times.\<close>

fun is_log :: "event \<Rightarrow> bool" where
  "is_log (Log l) = True"
| "is_log ev = False"

definition only_logs :: "'w state \<Rightarrow> 'w state \<Rightarrow> bool" where
  "only_logs st st' = (\<exists>new. trace st' = trace st @ new \<and> list_all is_log new)"

definition walk_trace :: "nat \<Rightarrow> 'w state \<Rightarrow> 'w state \<Rightarrow> bool" where
  "walk_trace n st st' =
     (\<exists>new. trace st' = trace st @ new \<and> list_all (\<lambda>ev. is_log ev \<or> is_navigate ev) new
        \<and> length (filter is_navigate new) \<le> n)"

text \<open>A shop whose browser works: two colour swatches (elements 1 and 2), three size
  buttons (3, 4, 5), a title (10), two prices (11, 12) and a next button (20). Every
  click and every navigation advances the world's counter.\<close>

definition shop_text :: "nat \<Rightarrow> string" where
  "shop_text el =
     (if el = 1 then '' Red'' else if el = 2 then ''Blue ''
      else if el = 3 then ''S'' else if el = 4 then ''M'' else if el = 5 then ''L''
      else if el = 10 then ''Shirt'' else if el = 11 then ''10 EUR'' else if el = 12 then ''12 EUR''
      else '''')"

definition shop_env :: "(nat, nat) env" where
  "shop_env = dead_env\<lparr>
     webdriver_new := (\<lambda>browser w. (None, w)),
     driver_get := (\<lambda>url w. (None, Suc w)),
     driver_wait := (\<lambda>timeout cond w. (None, w)),
     driver_click := (\<lambda>el w. (None, Suc w)),
     find_elements := (\<lambda>selector w. Inr
        (if selector = ''.color'' then [1, 2] else if selector = ''.size'' then [3, 4, 5]
         else if selector = ''h1'' then [10] else if selector = ''.price'' then [11, 12]
         else [])),
     find_element := (\<lambda>selector w.
        if selector = ''a.next'' then Inr 20 else Inl WebDriverException),
     element_text := (\<lambda>el w. Inr (shop_text el)),
     element_img_src := (\<lambda>el w. Inr None),
     driver_current_url := (\<lambda>w. Inr ''https://shop.test/next'') \<rparr>"

text \<open>The same shop when navigation raises, and when no wait ever ends in time.\<close>

definition crash_env :: "(nat, nat) env" where
  "crash_env = shop_env\<lparr> driver_get := (\<lambda>url w. (Some WebDriverException, Suc w)) \<rparr>"

definition slow_env :: "(nat, nat) env" where
  "slow_env = shop_env\<lparr> driver_wait := (\<lambda>timeout cond w. (Some TimeoutException, w)) \<rparr>"

text \<open>The same shop updating its page in place: a clicked element never goes stale, and
  the ready marker is there whenever it is waited for.\<close>

definition inplace_env :: "(nat, nat) env" where
  "inplace_env = shop_env\<lparr> driver_wait := (\<lambda>timeout cond w.
     (case cond of Staleness_of el \<Rightarrow> Some TimeoutException | _ \<Rightarrow> None, w)) \<rparr>"

text \<open>Site descriptors.\<close>

definition no_site :: site where
  "no_site = \<lparr> site_name = None, site_url = None, site_type = None, site_selectors = None,
     site_pagination = None, site_limit = None, site_browser = None, site_json_path = None,
     site_api_key = None \<rparr>"

definition dynamic_site :: site where
  "dynamic_site = no_site\<lparr> site_url := Some ''https://shop.test/p1'',
     site_type := Some ''dynamic'', site_selectors := Some [(''title'', ''h1'')] \<rparr>"

definition static_site :: site where
  "static_site = no_site\<lparr> site_url := Some ''https://x.test/p1'',
     site_type := Some ''static'', site_selectors := Some [(''title'', ''h1'')] \<rparr>"

definition api_site :: site where
  "api_site = no_site\<lparr> site_url := Some ''https://x.test/api'',
     site_type := Some ''api'', site_selectors := Some [] \<rparr>"

definition ftp_site :: site where
  "ftp_site = no_site\<lparr> site_url := Some ''ftp://x.test'',
     site_type := Some ''ftp'', site_selectors := Some [] \<rparr>"

text \<open>A dynamic site that asks for a browser the scraper does not know.\<close>

definition opera_site :: site where
  "opera_site = dynamic_site\<lparr> site_browser := Some ''Opera'' \<rparr>"

text \<open>Static documents: a first page with a title, a list with an empty item and a next
  link; a second page with a title and no next link; a page whose title is empty.\<close>

definition text_tag :: "string \<Rightarrow> tag" where
  "text_tag t = \<lparr> tag_text = t, tag_src = None, tag_href = None \<rparr>"

definition link_tag :: "string \<Rightarrow> tag" where
  "link_tag href = \<lparr> tag_text = ''next'', tag_src = None, tag_href = Some href \<rparr>"

definition page_one :: soup where
  "page_one selector =
     (if selector = ''h1'' then [text_tag ''A'']
      else if selector = ''li'' then [text_tag ''x'', text_tag '''', text_tag ''y'']
      else if selector = ''a.next'' then [link_tag ''/p2'']
      else [])"

definition page_two :: soup where
  "page_two selector = (if selector = ''h1'' then [text_tag ''B''] else [])"

definition price_page :: soup where
  "price_page selector =
     (if selector = ''.price'' then [text_tag ''10 EUR'', text_tag ''12 EUR''] else [])"

definition blank_page :: soup where
  "blank_page selector = (if selector = ''h1'' then [text_tag ''''] else [])"

text \<open>A site of these two pages; a site that serves the blank page; a site whose every
  page is the first page, so that the next link never ends.\<close>

definition two_page_env :: "(nat, nat) env" where
  "two_page_env = dead_env\<lparr>
     requests_get_soup := (\<lambda>url w.
        (if url = ''https://x.test/p1'' then Inr page_one
         else if url = ''https://x.test/p2'' then Inr page_two
         else Inl RequestException, Suc w)),
     urljoin := (\<lambda>base href. ''https://x.test'' @ href) \<rparr>"

definition blank_env :: "(nat, nat) env" where
  "blank_env = dead_env\<lparr> requests_get_soup := (\<lambda>url w. (Inr blank_page, Suc w)) \<rparr>"

definition endless_env :: "(nat, nat) env" where
  "endless_env = dead_env\<lparr>
     requests_get_soup := (\<lambda>url w. (Inr page_one, Suc w)),
     urljoin := (\<lambda>base href. ''https://x.test'' @ href) \<rparr>"

text \<open>Whether a selector of the record matched an element: in a static document, and in
  the browser (the two variation triggers apart, and a lookup that raises matching
  nothing).\<close>

definition static_matched :: "soup \<Rightarrow> (string \<times> string) list \<Rightarrow> bool" where
  "static_matched soup selectors = (\<exists>item \<in> set selectors. soup (snd item) \<noteq> [])"

definition dynamic_matched :: "('w, 'e) env \<Rightarrow> (string \<times> string) list \<Rightarrow> 'w \<Rightarrow> bool" where
  "dynamic_matched env selectors w =
     (\<exists>item \<in> set selectors. fst item \<notin> set [''color_variation'', ''size_variation'']
        \<and> (case find_elements env (snd item) w of Inr els \<Rightarrow> els \<noteq> [] | Inl e \<Rightarrow> False))"

text \<open>A property of the rows that holds of every record built on a match holds of every
  row a walker returns.\<close>

definition rows_all :: "(row \<Rightarrow> bool) \<Rightarrow> exn + row list \<Rightarrow> bool" where
  "rows_all P r = (case r of Inl e \<Rightarrow> True | Inr rows \<Rightarrow> \<forall>row \<in> set rows. P row)"

text \<open>The pages a walker has processed so far: the requests it sent, the navigations it
  made.\<close>

definition requests_in :: "'w state \<Rightarrow> nat" where
  "requests_in st = length (filter is_request (trace st))"

definition navigations_in :: "'w state \<Rightarrow> nat" where
  "navigations_in st = length (filter is_navigate (trace st))"

text \<open>The colour and size labels of variation records, in the order of the records.\<close>

definition variation_labels :: "row list \<Rightarrow> (val option \<times> val option) list" where
  "variation_labels rows = map (\<lambda>r. (map_of r ''variation_color'', map_of r ''variation_size'')) rows"

text \<open>A variation record carries the labels of a colour element and a size element:
  their trimmed texts as the browser gave them in some state of the page.\<close>

definition labelled :: "('w, 'e) env \<Rightarrow> row \<Rightarrow> 'e \<times> 'e \<Rightarrow> bool" where
  "labelled env var cs =
     (\<exists>w tc ts. element_text env (fst cs) w = Inr tc \<and> element_text env (snd cs) w = Inr ts
        \<and> map_of var ''variation_color'' = Some (VStr (str_strip tc))
        \<and> map_of var ''variation_size'' = Some (VStr (str_strip ts)))"

section \<open>Properties of the API fetcher\<close>

lemma py_range_empty: "retries \<le> 0 \<Longrightarrow> py_range retries = []"
  by (simp add: py_range_def)

lemma length_py_range: "length (py_range n) = nat n"
  by (simp add: py_range_def)


lemma api_attempts_trace:
  "\<exists>new. trace (snd (api_attempts env url json_path headers retries as st)) = trace st @ new
      \<and> length (filter is_request new) \<le> length as
      \<and> (\<forall>ev \<in> set new. is_sleep ev \<longrightarrow> ev = Sleep 2)"
proof (induction as arbitrary: st)
  case Nil
  then show ?case by simp
next
  case (Cons attempt rest)
  obtain r w where rw: "requests_get_json env url (headers_or_empty headers) (world st) = (r, w)"
    by (cases "requests_get_json env url (headers_or_empty headers) (world st)")
  let ?st1 = "emit (Request url) (st\<lparr>world := w\<rparr>)"
  show ?case
  proof (cases r)
    case (Inr body)
    then show ?thesis using rw
      by (cases "descend body json_path") (simp_all add: emit_def)
  next
    case (Inl e)
    show ?thesis
    proof (cases "e = RequestException \<and> attempt \<noteq> retries - 1")
      case True
      let ?st3 = "emit (Sleep 2) (emit (Log Warning) ?st1)"
      from Cons.IH[of ?st3] obtain new where
        n: "trace (snd (api_attempts env url json_path headers retries rest ?st3)) = trace ?st3 @ new"
           "length (filter is_request new) \<le> length rest"
           "\<forall>ev \<in> set new. is_sleep ev \<longrightarrow> ev = Sleep 2" by blast
      have "api_attempts env url json_path headers retries (attempt # rest) st =
            api_attempts env url json_path headers retries rest ?st3"
        using rw Inl True by simp
      then show ?thesis using n
        by (intro exI[of _ "[Request url, Log Warning, Sleep 2] @ new"]) (simp add: emit_def)
    next
      case False
      then show ?thesis using rw Inl by (cases "e = RequestException") (simp_all add: emit_def Let_def)
    qed
  qed
qed

lemma upto_step: "a \<le> b \<Longrightarrow> [a..b] = a # [a + 1..b]"
  by (simp add: upto_rec1)

lemma api_attempts_skip_failures:
  "a + int k \<le> retries - 1 \<Longrightarrow>
   \<forall>j<k. api_outcome env url headers j (world st) = Inl RequestException \<Longrightarrow>
   api_attempts env url json_path headers retries [a..retries - 1] st =
   api_attempts env url json_path headers retries [a + int k..retries - 1]
     (st\<lparr>world := api_world env url headers k (world st),
         trace := trace st @ concat (replicate k [Request url, Log Warning, Sleep 2])\<rparr>)"
proof (induction k arbitrary: a st)
  case 0
  then show ?case by simp
next
  case (Suc k)
  obtain w where rw: "requests_get_json env url (headers_or_empty headers) (world st) = (Inl RequestException, w)"
    using Suc.prems(2)[rule_format, of 0]
    by (cases "requests_get_json env url (headers_or_empty headers) (world st)") (simp add: api_outcome_def)
  let ?st3 = "emit (Sleep 2) (emit (Log Warning) (emit (Request url) (st\<lparr>world := w\<rparr>)))"
  have a: "a \<le> retries - 1" "a \<noteq> retries - 1" using Suc.prems(1) by simp_all
  have step: "api_attempts env url json_path headers retries [a..retries - 1] st =
              api_attempts env url json_path headers retries [a + 1..retries - 1] ?st3"
    using rw a by (simp add: upto_step[OF a(1)])
  have out: "\<forall>j<k. api_outcome env url headers j (world ?st3) = Inl RequestException"
  proof (intro allI impI)
    fix j assume "j < k"
    then have "api_outcome env url headers (Suc j) (world st) = Inl RequestException"
      using Suc.prems(2) by simp
    then show "api_outcome env url headers j (world ?st3) = Inl RequestException"
      using rw by (simp add: api_outcome_def emit_def)
  qed
  have "a + 1 + int k \<le> retries - 1" using Suc.prems(1) by simp
  from Suc.IH[OF this out] step rw show ?case
    by (simp add: emit_def add.assoc)
qed

lemma api_attempts_all_fail:
  assumes "0 < retries"
    and "\<forall>k < nat retries. api_outcome env url headers k (world st) = Inl RequestException"
  shows "fst (scrape_api env url json_path headers retries st) = Inr JNone \<and>
         trace (snd (scrape_api env url json_path headers retries st)) =
           trace st @ concat (replicate (nat retries - 1) [Request url, Log Warning, Sleep 2])
             @ [Request url, Log Warning, Log Error]"
proof -
  let ?k = "nat retries - 1"
  let ?st = "st\<lparr>world := api_world env url headers ?k (world st),
         trace := trace st @ concat (replicate ?k [Request url, Log Warning, Sleep 2])\<rparr>"
  have k: "0 + int ?k \<le> retries - 1" "0 + int ?k = retries - 1" using assms(1) by simp_all
  have f: "\<forall>j<?k. api_outcome env url headers j (world st) = Inl RequestException"
    using assms by simp
  have 1: "scrape_api env url json_path headers retries st =
        api_attempts env url json_path headers retries [retries - 1..retries - 1] ?st"
    unfolding scrape_api_def py_range_def
    using api_attempts_skip_failures[OF k(1) f] k(2) by simp
  have "api_outcome env url headers ?k (world st) = Inl RequestException"
    using assms by simp
  then obtain w where "requests_get_json env url (headers_or_empty headers) (world ?st) = (Inl RequestException, w)"
    by (cases "requests_get_json env url (headers_or_empty headers) (world ?st)") (simp add: api_outcome_def)
  then show ?thesis unfolding 1 by (simp add: upto_step emit_def)
qed

lemma api_attempts_first_success:
  assumes "int k < retries"
    and "\<forall>j<k. api_outcome env url headers j (world st) = Inl RequestException"
    and "api_outcome env url headers k (world st) = Inr body"
    and "descend body json_path = Inr data"
  shows "fst (scrape_api env url json_path headers retries st) = Inr (wrap_dict data) \<and>
         trace (snd (scrape_api env url json_path headers retries st)) =
           trace st @ concat (replicate k [Request url, Log Warning, Sleep 2])
             @ [Request url, Log Info]"
proof -
  let ?st = "st\<lparr>world := api_world env url headers k (world st),
         trace := trace st @ concat (replicate k [Request url, Log Warning, Sleep 2])\<rparr>"
  have k: "0 + int k \<le> retries - 1" using assms(1) by simp
  have 1: "scrape_api env url json_path headers retries st =
        api_attempts env url json_path headers retries [int k..retries - 1] ?st"
    unfolding scrape_api_def py_range_def
    using api_attempts_skip_failures[OF k assms(2)] by simp
  obtain w where "requests_get_json env url (headers_or_empty headers) (world ?st) = (Inr body, w)"
    using assms(3)
    by (cases "requests_get_json env url (headers_or_empty headers) (world ?st)") (simp add: api_outcome_def)
  then show ?thesis unfolding 1 using k assms(4) by (simp add: upto_step emit_def)
qed

text \<open>
  Claim C9. Called with a retries count of zero or less, the API fetcher returns
  \<^verbatim>\<open>None\<close> and leaves the state as it was: no request is sent, nothing is waited for and
  nothing is logged.
\<close>


theorem scrape_api_no_attempts:
  "retries \<le> 0 \<Longrightarrow> scrape_api env url json_path headers retries st = (Inr JNone, st)"
  by (simp add: scrape_api_def py_range_empty)

theorem scrape_api_no_attempts_witness:
  "(0::int) \<le> 0 \<and> (-3::int) \<le> 0
   \<and> scrape_api flaky_api_env ''https://x.test/api'' [''data''] None 0 start = (Inr JNone, start)
   \<and> scrape_api flaky_api_env ''https://x.test/api'' [''data''] None (-3) start = (Inr JNone, start)"
  using scrape_api_no_attempts [of 0 flaky_api_env "''https://x.test/api''" "[''data'']" None start]
    scrape_api_no_attempts [of "-3" flaky_api_env "''https://x.test/api''" "[''data'']" None start]
  by simp

text \<open>
  Claim C6. For every url, json-path and retries count the API fetcher sends at most
  \<open>retries\<close> requests, and every wait it makes is the same two seconds. When every
  attempt fails with a request error it sends exactly \<open>retries\<close> requests, waits after
  each but the last, and returns \<^verbatim>\<open>None\<close>. When attempt \<open>k\<close> is the first to succeed it
  returns that attempt's data at once: \<open>k + 1\<close> requests, \<open>k\<close> waits, nothing after.
\<close>

theorem scrape_api_bounded_retries:
  "(\<exists>new. trace (snd (scrape_api env url json_path headers retries st)) = trace st @ new
      \<and> length (filter is_request new) \<le> nat retries
      \<and> (\<forall>ev \<in> set new. is_sleep ev \<longrightarrow> ev = Sleep 2))
   \<and> (0 < retries \<and> (\<forall>k < nat retries. api_outcome env url headers k (world st) = Inl RequestException)
      \<longrightarrow> fst (scrape_api env url json_path headers retries st) = Inr JNone
        \<and> trace (snd (scrape_api env url json_path headers retries st)) =
            trace st @ concat (replicate (nat retries - 1) [Request url, Log Warning, Sleep 2])
              @ [Request url, Log Warning, Log Error])
   \<and> (\<forall>k body data. int k < retries
        \<and> (\<forall>j<k. api_outcome env url headers j (world st) = Inl RequestException)
        \<and> api_outcome env url headers k (world st) = Inr body
        \<and> descend body json_path = Inr data
      \<longrightarrow> fst (scrape_api env url json_path headers retries st) = Inr (wrap_dict data)
        \<and> trace (snd (scrape_api env url json_path headers retries st)) =
            trace st @ concat (replicate k [Request url, Log Warning, Sleep 2])
              @ [Request url, Log Info])"
proof (intro conjI allI impI)
  show "\<exists>new. trace (snd (scrape_api env url json_path headers retries st)) = trace st @ new
      \<and> length (filter is_request new) \<le> nat retries
      \<and> (\<forall>ev \<in> set new. is_sleep ev \<longrightarrow> ev = Sleep 2)"
    using api_attempts_trace[of env url json_path headers retries "py_range retries" st]
    by (simp add: scrape_api_def length_py_range)
next
  assume h: "0 < retries \<and> (\<forall>k < nat retries. api_outcome env url headers k (world st) = Inl RequestException)"
  then show "fst (scrape_api env url json_path headers retries st) = Inr JNone"
    using api_attempts_all_fail[of retries env url headers st json_path] by blast
  from h show "trace (snd (scrape_api env url json_path headers retries st)) =
            trace st @ concat (replicate (nat retries - 1) [Request url, Log Warning, Sleep 2])
              @ [Request url, Log Warning, Log Error]"
    using api_attempts_all_fail[of retries env url headers st json_path] by blast
next
  fix k body data
  assume h: "int k < retries
        \<and> (\<forall>j<k. api_outcome env url headers j (world st) = Inl RequestException)
        \<and> api_outcome env url headers k (world st) = Inr body
        \<and> descend body json_path = Inr data"
  then show "fst (scrape_api env url json_path headers retries st) = Inr (wrap_dict data)"
    using api_attempts_first_success[of k retries env url headers st body json_path data] by blast
  from h show "trace (snd (scrape_api env url json_path headers retries st)) =
            trace st @ concat (replicate k [Request url, Log Warning, Sleep 2])
              @ [Request url, Log Info]"
    using api_attempts_first_success[of k retries env url headers st body json_path data] by blast
qed

lemma flaky_outcomes:
  "api_outcome flaky_api_env u None 0 0 = Inl RequestException"
  "api_outcome flaky_api_env u None (Suc 0) 0 = Inl RequestException"
  "api_outcome flaky_api_env u None (Suc (Suc 0)) 0 = Inr (JDict [(''data'', JDict [(''id'', JInt 7)])])"
  by (simp_all add: api_outcome_def flaky_api_env_def dead_env_def)

lemma dead_outcomes: "api_outcome dead_env u None k w = Inl RequestException"
  by (simp add: api_outcome_def dead_env_def)

theorem scrape_api_bounded_retries_witness:
  "scrape_api flaky_api_env ''https://x.test/api'' [''data''] None 3 start =
     (Inr (JList [JDict [(''id'', JInt 7)]]),
      \<lparr> world = 3, trace = [Request ''https://x.test/api'', Log Warning, Sleep 2,
                            Request ''https://x.test/api'', Log Warning, Sleep 2,
                            Request ''https://x.test/api'', Log Info] \<rparr>)
   \<and> fst (scrape_api dead_env ''https://x.test/api'' [''data''] None 2 start) = Inr JNone
   \<and> trace (snd (scrape_api dead_env ''https://x.test/api'' [''data''] None 2 start)) =
       [Request ''https://x.test/api'', Log Warning, Sleep 2,
        Request ''https://x.test/api'', Log Warning, Log Error]"
proof -
  let ?u = "''https://x.test/api''"
  have less2: "\<And>j::nat. j < 2 \<Longrightarrow> j = 0 \<or> j = Suc 0" by auto
  have a: "\<forall>j<2. api_outcome flaky_api_env ?u None j (world start) = Inl RequestException"
    using flaky_outcomes(1,2) less2 by (auto simp: start_def)
  have b: "api_outcome flaky_api_env ?u None 2 (world start)
             = Inr (JDict [(''data'', JDict [(''id'', JInt 7)])])"
    using flaky_outcomes(3) by (simp add: start_def numeral_2_eq_2)
  have c: "descend (JDict [(''data'', JDict [(''id'', JInt 7)])]) [''data''] = Inr (JDict [(''id'', JInt 7)])"
    by simp
  have d: "int 2 < 3" by simp
  have e: "(0::int) < 2 \<and> (\<forall>k < nat 2. api_outcome dead_env ?u None k (world start) = Inl RequestException)"
    by (simp add: dead_outcomes)
  have w3: "world (snd (scrape_api flaky_api_env ?u [''data''] None 3 start)) = 3"
    by (simp add: scrape_api_def py_range_def upto_step flaky_api_env_def dead_env_def start_def emit_def)
  note flaky = scrape_api_bounded_retries [of flaky_api_env ?u "[''data'']" None 3 start]
  note dead = scrape_api_bounded_retries [of dead_env ?u "[''data'']" None 2 start]
  have f: "fst (scrape_api flaky_api_env ?u [''data''] None 3 start) = Inr (JList [JDict [(''id'', JInt 7)]])
     \<and> trace (snd (scrape_api flaky_api_env ?u [''data''] None 3 start)) =
        [Request ?u, Log Warning, Sleep 2, Request ?u, Log Warning, Sleep 2, Request ?u, Log Info]"
    using flaky [THEN conjunct2, THEN conjunct2, rule_format,
        of 2 "JDict [(''data'', JDict [(''id'', JInt 7)])]" "JDict [(''id'', JInt 7)]"] a b c d
    by (simp add: start_def numeral_2_eq_2)
  have g: "fst (scrape_api dead_env ?u [''data''] None 2 start) = Inr JNone
     \<and> trace (snd (scrape_api dead_env ?u [''data''] None 2 start)) =
        [Request ?u, Log Warning, Sleep 2, Request ?u, Log Warning, Log Error]"
    using dead [THEN conjunct2, THEN conjunct1, rule_format] e
    by (simp add: start_def)
  show ?thesis
  proof (intro conjI)
    show "scrape_api flaky_api_env ?u [''data''] None 3 start =
     (Inr (JList [JDict [(''id'', JInt 7)]]),
      \<lparr> world = 3, trace = [Request ?u, Log Warning, Sleep 2,
                            Request ?u, Log Warning, Sleep 2,
                            Request ?u, Log Info] \<rparr>)"
      using f w3 by (cases "scrape_api flaky_api_env ?u [''data''] None 3 start") (auto intro: state.equality)
  qed (use g in simp_all)
qed


section \<open>Traces of the dynamic walker\<close>

lemma only_logs_refl: "only_logs st st"
  by (simp add: only_logs_def)

lemma only_logs_trans: "only_logs a b \<Longrightarrow> only_logs b c \<Longrightarrow> only_logs a c"
  by (auto simp: only_logs_def)

lemma only_logs_world: "only_logs st st' \<Longrightarrow> only_logs st (st'\<lparr>world := w\<rparr>)"
  by (simp add: only_logs_def)

lemma only_logs_world': "only_logs (st\<lparr>world := w\<rparr>) st' \<Longrightarrow> only_logs st st'"
  by (simp add: only_logs_def)

lemma only_logs_emit: "only_logs st st' \<Longrightarrow> only_logs st (emit (Log l) st')"
  by (auto simp: only_logs_def emit_def)

lemma dynamic_field_logs: "only_logs (snd (snd acc)) (snd (snd (dynamic_field env item acc)))"
  by (auto simp: dynamic_field_def Let_def only_logs_refl only_logs_emit split: sum.splits)

lemma dynamic_fields_logs: "only_logs (snd (snd acc)) (snd (snd (dynamic_fields env items acc)))"
proof (induction items arbitrary: acc)
  case Nil
  show ?case by (simp add: only_logs_refl)
next
  case (Cons item items)
  show ?case using only_logs_trans[OF dynamic_field_logs Cons.IH] by simp
qed

lemma click_and_wait_logs: "only_logs st (snd (click_and_wait env el st))"
  by (auto simp: click_and_wait_def only_logs_refl only_logs_world split: prod.splits option.splits)

lemma trigger_logs: "only_logs st (snd (trigger env el st))"
proof (cases el)
  case None
  then show ?thesis by (simp add: trigger_def only_logs_refl)
next
  case (Some e)
  obtain r st1 where c: "click_and_wait env e st = (r, st1)" by (cases "click_and_wait env e st")
  have "only_logs st st1" using click_and_wait_logs[of st env e] c by simp
  then show ?thesis using Some c by (cases r) (simp_all add: trigger_def only_logs_emit)
qed

lemma variation_record_logs: "only_logs st (snd (variation_record env selectors c s st))"
  using dynamic_fields_logs[of "([(''variation_color'', VStr x), (''variation_size'', VStr y)], False, st)" env selectors for x y]
  by (auto simp: variation_record_def Let_def only_logs_refl split: sum.splits)

lemma size_loop_logs: "only_logs st (snd (size_loop env selectors c ss results st))"
proof (induction ss arbitrary: results st)
  case Nil
  show ?case by (simp add: only_logs_refl)
next
  case (Cons s ss)
  obtain b st1 where t: "trigger env s st = (b, st1)" by (cases "trigger env s st")
  have l1: "only_logs st st1" using trigger_logs[of st env s] t by simp
  show ?case
  proof (cases b)
    case False
    then show ?thesis using t only_logs_trans[OF l1 Cons.IH] by simp
  next
    case True
    obtain r st2 where v: "variation_record env selectors c s st1 = (r, st2)"
      by (cases "variation_record env selectors c s st1")
    have l2: "only_logs st st2"
      using only_logs_trans[OF l1] variation_record_logs[of st1 env selectors c s] v by simp
    show ?thesis using t True v l2 only_logs_trans[OF l2 Cons.IH]
      by (cases r) simp_all
  qed
qed

lemma color_loop_logs: "only_logs st (snd (color_loop env selectors cs ss results st))"
proof (induction cs arbitrary: results st)
  case Nil
  show ?case by (simp add: only_logs_refl)
next
  case (Cons c cs)
  obtain b st1 where t: "trigger env c st = (b, st1)" by (cases "trigger env c st")
  have l1: "only_logs st st1" using trigger_logs[of st env c] t by simp
  show ?case
  proof (cases b)
    case False
    then show ?thesis using t only_logs_trans[OF l1 Cons.IH] by simp
  next
    case True
    obtain r st2 where v: "size_loop env selectors c ss results st1 = (r, st2)"
      by (cases "size_loop env selectors c ss results st1")
    have l2: "only_logs st st2"
      using only_logs_trans[OF l1] size_loop_logs[of st1 env selectors c ss results] v by simp
    show ?thesis using t True v l2 only_logs_trans[OF l2 Cons.IH]
      by (cases r) simp_all
  qed
qed

lemma dynamic_page_logs: "only_logs st (snd (dynamic_page env selectors results st))"
proof -
  let ?base = "dynamic_fields env selectors ([], False, st)"
  have b: "only_logs st (snd (snd ?base))" using dynamic_fields_logs[of "([], False, st)"] by simp
  show ?thesis
    using b only_logs_trans[OF b color_loop_logs]
    by (auto simp: dynamic_page_def Let_def split: sum.splits)
qed

lemma dynamic_next_logs: "only_logs st (snd (dynamic_next env pagination cur st))"
  by (auto simp: dynamic_next_def only_logs_refl only_logs_emit only_logs_world
           split: option.splits sum.splits prod.splits)

declare dynamic_loop.simps [simp del]
declare static_loop.simps [simp del]

lemma dynamic_loop_exit:
  assumes "\<not> (truthy current_url \<and> pages_scraped < limit)"
  shows "dynamic_loop env selectors pagination limit current_url pages_scraped results st = (Inr results, st)"
  by (subst dynamic_loop.simps) (simp only: assms if_False)

lemma dynamic_loop_get_raises:
  "cur \<noteq> [] \<Longrightarrow> pages_scraped < limit \<Longrightarrow> driver_get env cur (world st) = (Some e, w) \<Longrightarrow>
   dynamic_loop env selectors pagination limit (Some cur) pages_scraped results st =
     (Inl e, emit (Navigate cur) (st\<lparr>world := w\<rparr>))"
  by (subst dynamic_loop.simps) simp

lemma dynamic_loop_not_ready:
  "cur \<noteq> [] \<Longrightarrow> pages_scraped < limit \<Longrightarrow> driver_get env cur (world st) = (None, w) \<Longrightarrow>
   driver_wait env 10 (Presence_of_element_located ready_marker) w = (Some e, w') \<Longrightarrow>
   dynamic_loop env selectors pagination limit (Some cur) pages_scraped results st =
     (Inr results, emit (Log Error) (emit (Navigate cur) (st\<lparr>world := w'\<rparr>)))"
  by (subst dynamic_loop.simps) simp

lemma dynamic_loop_page_raises:
  "cur \<noteq> [] \<Longrightarrow> pages_scraped < limit \<Longrightarrow> driver_get env cur (world st) = (None, w) \<Longrightarrow>
   driver_wait env 10 (Presence_of_element_located ready_marker) w = (None, w') \<Longrightarrow>
   dynamic_page env selectors results (emit (Navigate cur) (st\<lparr>world := w'\<rparr>)) = (Inl e, st1) \<Longrightarrow>
   dynamic_loop env selectors pagination limit (Some cur) pages_scraped results st = (Inl e, st1)"
  by (subst dynamic_loop.simps) simp

lemma dynamic_loop_next:
  "cur \<noteq> [] \<Longrightarrow> pages_scraped < limit \<Longrightarrow> driver_get env cur (world st) = (None, w) \<Longrightarrow>
   driver_wait env 10 (Presence_of_element_located ready_marker) w = (None, w') \<Longrightarrow>
   dynamic_page env selectors results (emit (Navigate cur) (st\<lparr>world := w'\<rparr>)) = (Inr results', st1) \<Longrightarrow>
   dynamic_next env pagination cur st1 = (next_url, st2) \<Longrightarrow>
   dynamic_loop env selectors pagination limit (Some cur) pages_scraped results st =
     dynamic_loop env selectors pagination limit next_url (pages_scraped + 1) results'
       (emit (Log Info) st2)"
  by (subst dynamic_loop.simps) simp

lemma walk_trace_refl: "walk_trace n st st"
  by (simp add: walk_trace_def)

lemma is_log_not_navigate: "is_log ev \<Longrightarrow> \<not> is_navigate ev"
  by (cases ev) simp_all

lemma only_logs_walk: "only_logs st st' \<Longrightarrow> walk_trace 0 st st'"
proof -
  assume "only_logs st st'"
  then obtain new where n: "trace st' = trace st @ new" "list_all is_log new"
    by (auto simp: only_logs_def)
  have "filter is_navigate new = []"
    using n(2) by (induction new) (simp_all add: is_log_not_navigate)
  moreover have "list_all (\<lambda>ev. is_log ev \<or> is_navigate ev) new"
    using n(2) by (induction new) simp_all
  ultimately show ?thesis using n(1) by (auto simp: walk_trace_def)
qed

lemma walk_trace_mono: "walk_trace m st st' \<Longrightarrow> m \<le> n \<Longrightarrow> walk_trace n st st'"
  by (auto simp: walk_trace_def)

lemma walk_trace_trans:
  "walk_trace m a b \<Longrightarrow> walk_trace n b c \<Longrightarrow> walk_trace (m + n) a c"
  unfolding walk_trace_def
  by (elim exE conjE, rule_tac x = "new @ newa" in exI) simp

lemma walk_trace_navigate:
  "walk_trace (Suc 0) st (emit (Navigate cur) (st\<lparr>world := w\<rparr>))"
  by (simp add: walk_trace_def emit_def)

lemma walk_trace_log: "walk_trace n st st' \<Longrightarrow> walk_trace n st (emit (Log l) st')"
  by (auto simp: walk_trace_def emit_def)

lemma dynamic_loop_walk:
  "walk_trace (nat (limit - pages_scraped)) st
     (snd (dynamic_loop env selectors pagination limit current_url pages_scraped results st))"
proof (induction "nat (limit - pages_scraped)" arbitrary: current_url pages_scraped results st)
  case 0
  then have "\<not> (truthy current_url \<and> pages_scraped < limit)" by simp
  then show ?case by (simp add: dynamic_loop_exit walk_trace_refl)
next
  case (Suc n)
  then have lt: "pages_scraped < limit" and n: "n = nat (limit - (pages_scraped + 1))" by simp_all
  show ?case
  proof (cases "truthy current_url")
    case False
    then show ?thesis by (simp add: dynamic_loop_exit walk_trace_refl)
  next
    case True
    then obtain cur where cur: "current_url = Some cur" "cur \<noteq> []" by (cases current_url) simp_all
    obtain r w where g: "driver_get env cur (world st) = (r, w)"
      by (cases "driver_get env cur (world st)")
    have one: "Suc 0 \<le> nat (limit - pages_scraped)" using lt by simp
    show ?thesis
    proof (cases r)
      case (Some e)
      show ?thesis
        using walk_trace_mono[OF walk_trace_navigate one]
        by (simp add: cur dynamic_loop_get_raises[OF cur(2) lt g[unfolded Some]])
    next
      case None
      obtain r' w' where wt: "driver_wait env 10 (Presence_of_element_located ready_marker) w = (r', w')"
        by (cases "driver_wait env 10 (Presence_of_element_located ready_marker) w")
      let ?st0 = "emit (Navigate cur) (st\<lparr>world := w'\<rparr>)"
      show ?thesis
      proof (cases r')
        case (Some e)
        show ?thesis
          using walk_trace_log[OF walk_trace_mono[OF walk_trace_navigate one]]
          by (simp add: cur dynamic_loop_not_ready[OF cur(2) lt g[unfolded None] wt[unfolded Some]])
      next
        case None': None
        obtain pr st1 where pg: "dynamic_page env selectors results ?st0 = (pr, st1)"
          by (cases "dynamic_page env selectors results ?st0")
        have "only_logs ?st0 st1"
          using dynamic_page_logs[of ?st0 env selectors results] pg by simp
        from walk_trace_trans[OF walk_trace_navigate only_logs_walk[OF this]]
        have w1: "walk_trace (Suc 0) st st1" by simp
        show ?thesis
        proof (cases pr)
          case (Inl e)
          show ?thesis using walk_trace_mono[OF w1 one]
            by (simp add: cur dynamic_loop_page_raises[OF cur(2) lt g[unfolded None] wt[unfolded None'] pg[unfolded Inl]])
        next
          case (Inr results')
          obtain next_url st2 where nx: "dynamic_next env pagination cur st1 = (next_url, st2)"
            by (cases "dynamic_next env pagination cur st1")
          have "only_logs st1 st2"
            using dynamic_next_logs[of st1 env pagination cur] nx by simp
          from walk_trace_log[OF walk_trace_trans[OF w1 only_logs_walk[OF this]]]
          have w2: "walk_trace (Suc 0) st (emit (Log Info) st2)" by simp
          have "walk_trace (Suc 0 + nat (limit - (pages_scraped + 1))) st
                 (snd (dynamic_loop env selectors pagination limit next_url (pages_scraped + 1) results'
                         (emit (Log Info) st2)))"
            using walk_trace_trans[OF w2 Suc.hyps(1)[OF n]] .
          moreover have "Suc 0 + nat (limit - (pages_scraped + 1)) = nat (limit - pages_scraped)"
            using lt by simp
          ultimately show ?thesis
            by (simp add: cur dynamic_loop_next[OF cur(2) lt g[unfolded None] wt[unfolded None'] pg[unfolded Inr] nx])
        qed
      qed
    qed
  qed
qed


section \<open>Properties of the orchestrator\<close>

lemma run_sites_raise:
  "site_url site = Some url \<Longrightarrow> site_type site = Some type \<Longrightarrow>
   site_selectors site = Some selectors \<Longrightarrow>
   scrape_site env site url type selectors (emit (Log Info) st) = (Inl e, st1) \<Longrightarrow>
   run_sites env idx (site # rest) st = (Some e, st1)"
  by (simp add: required_keys_present_def)

lemma run_sites_unknown:
  "site_url site = Some url \<Longrightarrow> site_type site = Some type \<Longrightarrow>
   site_selectors site = Some selectors \<Longrightarrow>
   scrape_site env site url type selectors (emit (Log Info) st) = (Inr None, st1) \<Longrightarrow>
   run_sites env idx (site # rest) st = run_sites env (Suc idx) rest st1"
  by (simp add: required_keys_present_def)

text \<open>An exception that ends the loop over the sites leaves \<^verbatim>\<open>run_scraper\<close> as an
  exception: itself, or the one raised by closing the writer.\<close>

lemma run_scraper_raises:
  assumes "make_output_dir env (world st) = (None, w)"
    and "load_config env w = Inr (Some sites)"
    and "writer_open env w = (None, w1)"
    and "run_sites env 0 sites (st\<lparr>world := w1\<rparr>) = (Some e, st1)"
  shows "fst (run_scraper env st) \<noteq> None"
proof -
  obtain c w2 where c: "writer_close env (world st1) = (c, w2)"
    by (cases "writer_close env (world st1)")
  show ?thesis using assms c by (cases c) (simp_all add: run_scraper_def)
qed

text \<open>
  Claim C10. The validation of a site looks at \<^verbatim>\<open>url\<close>, \<^verbatim>\<open>type\<close> and \<^verbatim>\<open>selectors\<close> only.
  A site of type \<^verbatim>\<open>api\<close> that has these three keys and no \<^verbatim>\<open>json_path\<close> passes it, and
  the subscript \<^verbatim>\<open>site["json_path"]\<close> then raises a key error in the loop over the sites:
  the site is not skipped as invalid, no request is sent, and the loop ends there
  whatever sites follow.
\<close>

theorem api_site_missing_json_path:
  "site_url site = Some url \<Longrightarrow> site_type site = Some ''api'' \<Longrightarrow>
   site_selectors site = Some selectors \<Longrightarrow> site_json_path site = None \<Longrightarrow>
   required_keys_present site \<and>
   run_sites env idx (site # rest) st = (Some (KeyError ''json_path''), emit (Log Info) st)"
proof -
  assume a: "site_url site = Some url" "site_type site = Some ''api''"
    "site_selectors site = Some selectors" "site_json_path site = None"
  have s: "scrape_site env site url ''api'' selectors (emit (Log Info) st)
             = (Inl (KeyError ''json_path''), emit (Log Info) st)"
    using a(4) by (simp add: scrape_site_def)
  have r: "run_sites env idx (site # rest) st = (Some (KeyError ''json_path''), emit (Log Info) st)"
    using run_sites_raise[OF a(1,2,3) s] .
  show ?thesis using a r
    by (simp add: required_keys_present_def)
qed

theorem api_site_missing_json_path_witness:
  "required_keys_present api_site
   \<and> run_sites dead_env 0 [api_site, static_site] start =
     (Some (KeyError ''json_path''), \<lparr> world = 0, trace = [Log Info] \<rparr>)"
proof -
  have h: "site_url api_site = Some ''https://x.test/api''" "site_type api_site = Some ''api''"
    "site_selectors api_site = Some []" "site_json_path api_site = None"
    by (simp_all add: api_site_def no_site_def)
  have e: "emit (Log Info) start = \<lparr> world = 0, trace = [Log Info] \<rparr>"
    by (simp add: emit_def start_def)
  from api_site_missing_json_path [OF h, of dead_env 0 "[static_site]" start]
  show ?thesis unfolding e by blast
qed

lemma get_driver_unsupported:
  "str_lower browser \<noteq> ''chrome'' \<Longrightarrow> str_lower browser \<noteq> ''firefox'' \<Longrightarrow>
   str_lower browser \<noteq> ''safari'' \<Longrightarrow>
   get_driver env browser st = (Some ValueError, emit (Log Error) st)"
  by (simp add: get_driver_def)

lemma get_driver_fails:
  "str_lower browser = ''chrome'' \<or> str_lower browser = ''firefox''
     \<or> str_lower browser = ''safari'' \<Longrightarrow>
   webdriver_new env (str_lower browser) (world st) = (Some e, w) \<Longrightarrow>
   get_driver env browser st = (Some e, emit (Log Error) (st\<lparr>world := w\<rparr>))"
  by (auto simp: get_driver_def)

lemma scrape_site_driver_fails:
  "get_driver env (case site_browser site of None \<Rightarrow> ''chrome'' | Some b \<Rightarrow> b) st = (Some e, st1) \<Longrightarrow>
   scrape_site env site url ''dynamic'' selectors st = (Inl e, st1)"
  by (simp add: scrape_site_def scrape_dynamic_def)

lemma scrape_site_unknown_type:
  "type \<noteq> ''static'' \<Longrightarrow> type \<noteq> ''dynamic'' \<Longrightarrow> type \<noteq> ''api'' \<Longrightarrow>
   scrape_site env site url type selectors st = (Inr None, emit (Log Warning) st)"
  by (simp add: scrape_site_def)

lemma dead_chrome:
  "get_driver dead_env ''chrome'' st = (Some WebDriverException, emit (Log Error) st)"
proof -
  have l: "str_lower ''chrome'' = ''chrome''" by (simp add: str_lower_def lower_char_def)
  have w: "webdriver_new dead_env (str_lower ''chrome'') (world st) = (Some WebDriverException, world st)"
    by (simp add: dead_env_def)
  show ?thesis using get_driver_fails[OF _ w] l by simp
qed

text \<open>
  Claim C1, as the code has it. The claim that no exception of a site reaches the loop
  over the sites fails: on a machine without a browser the first, dynamic site ends the
  loop with the driver's exception, and the static site after it is never requested.
\<close>

theorem driver_failure_aborts_run_counterexample:
  "run_sites dead_env 0 [dynamic_site, static_site] start =
     (Some WebDriverException, \<lparr> world = 0, trace = [Log Info, Log Error] \<rparr>)"
proof -
  have b: "(case site_browser dynamic_site of None \<Rightarrow> ''chrome'' | Some b \<Rightarrow> b) = ''chrome''"
    by (simp add: dynamic_site_def no_site_def)
  have h: "site_url dynamic_site = Some ''https://shop.test/p1''"
    "site_type dynamic_site = Some ''dynamic''"
    "site_selectors dynamic_site = Some [(''title'', ''h1'')]"
    by (simp_all add: dynamic_site_def no_site_def)
  have e: "emit (Log Error) (emit (Log Info) start) = \<lparr> world = 0, trace = [Log Info, Log Error] \<rparr>"
    by (simp add: emit_def start_def)
  have "run_sites dead_env 0 [dynamic_site, static_site] start =
          (Some WebDriverException, emit (Log Error) (emit (Log Info) start))"
    by (rule run_sites_raise[OF h scrape_site_driver_fails]) (simp only: b dead_chrome)
  then show ?thesis unfolding e .
qed

text \<open>
  Claim C1, amended. A site without one of the required keys is logged and skipped, and
  so is a site of an unsupported type: the loop goes on with the next site. A browser
  session that cannot be started for a dynamic site, because the browser is not one the
  scraper knows or because the driver raises when it is created, is logged as an error
  by \<^verbatim>\<open>get_driver\<close> and raised again, and nothing catches it: it ends the loop over the
  sites at that site, whatever sites follow.
\<close>

theorem run_sites_skips_or_raises:
  "(\<not> required_keys_present site \<longrightarrow>
      run_sites env idx (site # rest) st = run_sites env (Suc idx) rest (emit (Log Error) st))
   \<and> (site_url site = Some url \<and> site_type site = Some type \<and> site_selectors site = Some selectors
        \<and> type \<noteq> ''static'' \<and> type \<noteq> ''dynamic'' \<and> type \<noteq> ''api'' \<longrightarrow>
      run_sites env idx (site # rest) st =
        run_sites env (Suc idx) rest (emit (Log Warning) (emit (Log Info) st)))
   \<and> (site_url site = Some url \<and> site_type site = Some ''dynamic''
        \<and> site_selectors site = Some selectors
        \<and> browser = (case site_browser site of None \<Rightarrow> ''chrome'' | Some b \<Rightarrow> b)
        \<and> str_lower browser \<noteq> ''chrome'' \<and> str_lower browser \<noteq> ''firefox''
        \<and> str_lower browser \<noteq> ''safari'' \<longrightarrow>
      run_sites env idx (site # rest) st
        = (Some ValueError, emit (Log Error) (emit (Log Info) st)))
   \<and> (site_url site = Some url \<and> site_type site = Some ''dynamic''
        \<and> site_selectors site = Some selectors
        \<and> browser = (case site_browser site of None \<Rightarrow> ''chrome'' | Some b \<Rightarrow> b)
        \<and> (str_lower browser = ''chrome'' \<or> str_lower browser = ''firefox''
             \<or> str_lower browser = ''safari'')
        \<and> webdriver_new env (str_lower browser) (world st) = (Some e, w) \<longrightarrow>
      run_sites env idx (site # rest) st
        = (Some e, emit (Log Error) ((emit (Log Info) st)\<lparr>world := w\<rparr>)))"
proof (intro conjI impI)
  assume "\<not> required_keys_present site"
  then show "run_sites env idx (site # rest) st = run_sites env (Suc idx) rest (emit (Log Error) st)"
    by simp
next
  assume a: "site_url site = Some url \<and> site_type site = Some type \<and> site_selectors site = Some selectors
        \<and> type \<noteq> ''static'' \<and> type \<noteq> ''dynamic'' \<and> type \<noteq> ''api''"
  show "run_sites env idx (site # rest) st =
        run_sites env (Suc idx) rest (emit (Log Warning) (emit (Log Info) st))"
    by (rule run_sites_unknown[OF _ _ _ scrape_site_unknown_type]) (use a in blast)+
next
  assume a: "site_url site = Some url \<and> site_type site = Some ''dynamic''
        \<and> site_selectors site = Some selectors
        \<and> browser = (case site_browser site of None \<Rightarrow> ''chrome'' | Some b \<Rightarrow> b)
        \<and> str_lower browser \<noteq> ''chrome'' \<and> str_lower browser \<noteq> ''firefox''
        \<and> str_lower browser \<noteq> ''safari''"
  then have b: "site_url site = Some url" "site_type site = Some ''dynamic''"
    "site_selectors site = Some selectors"
    "(case site_browser site of None \<Rightarrow> ''chrome'' | Some b \<Rightarrow> b) = browser"
    "str_lower browser \<noteq> ''chrome''" "str_lower browser \<noteq> ''firefox''"
    "str_lower browser \<noteq> ''safari''"
    by blast+
  have g: "get_driver env (case site_browser site of None \<Rightarrow> ''chrome'' | Some b \<Rightarrow> b)
             (emit (Log Info) st) = (Some ValueError, emit (Log Error) (emit (Log Info) st))"
    unfolding b(4) by (rule get_driver_unsupported[OF b(5,6,7)])
  show "run_sites env idx (site # rest) st
        = (Some ValueError, emit (Log Error) (emit (Log Info) st))"
    by (rule run_sites_raise[OF b(1,2,3) scrape_site_driver_fails[OF g]])
next
  assume a: "site_url site = Some url \<and> site_type site = Some ''dynamic''
        \<and> site_selectors site = Some selectors
        \<and> browser = (case site_browser site of None \<Rightarrow> ''chrome'' | Some b \<Rightarrow> b)
        \<and> (str_lower browser = ''chrome'' \<or> str_lower browser = ''firefox''
             \<or> str_lower browser = ''safari'')
        \<and> webdriver_new env (str_lower browser) (world st) = (Some e, w)"
  then have b: "site_url site = Some url" "site_type site = Some ''dynamic''"
    "site_selectors site = Some selectors"
    "(case site_browser site of None \<Rightarrow> ''chrome'' | Some b \<Rightarrow> b) = browser"
    "str_lower browser = ''chrome'' \<or> str_lower browser = ''firefox''
       \<or> str_lower browser = ''safari''"
    "webdriver_new env (str_lower browser) (world st) = (Some e, w)"
    by blast+
  have w: "webdriver_new env (str_lower browser) (world (emit (Log Info) st)) = (Some e, w)"
    using b(6) by (simp add: emit_def)
  have g: "get_driver env (case site_browser site of None \<Rightarrow> ''chrome'' | Some b \<Rightarrow> b)
             (emit (Log Info) st) = (Some e, emit (Log Error) ((emit (Log Info) st)\<lparr>world := w\<rparr>))"
    unfolding b(4) by (rule get_driver_fails[OF b(5) w])
  show "run_sites env idx (site # rest) st
        = (Some e, emit (Log Error) ((emit (Log Info) st)\<lparr>world := w\<rparr>))"
    by (rule run_sites_raise[OF b(1,2,3) scrape_site_driver_fails[OF g]])
qed

theorem run_sites_skips_or_raises_witness:
  "run_sites dead_env 0 [no_site, ftp_site, dynamic_site, static_site] start =
     (Some WebDriverException,
      \<lparr> world = 0, trace = [Log Error, Log Info, Log Warning, Log Info, Log Error] \<rparr>)
   \<and> run_sites shop_env 0 [opera_site, static_site] start =
     (Some ValueError, \<lparr> world = 0, trace = [Log Info, Log Error] \<rparr>)"
proof -
  let ?st1 = "emit (Log Error) start"
  let ?st2 = "emit (Log Warning) (emit (Log Info) ?st1)"
  have 1: "\<not> required_keys_present no_site"
    by (simp add: required_keys_present_def no_site_def)
  have 2: "site_url ftp_site = Some ''ftp://x.test'' \<and> site_type ftp_site = Some ''ftp''
      \<and> site_selectors ftp_site = Some [] \<and> ''ftp'' \<noteq> ''static'' \<and> ''ftp'' \<noteq> ''dynamic''
      \<and> ''ftp'' \<noteq> ''api''"
    by (simp add: ftp_site_def no_site_def)
  have l: "str_lower ''chrome'' = ''chrome''" "str_lower ''Opera'' = ''opera''"
    by code_simp+
  have 3: "site_url dynamic_site = Some ''https://shop.test/p1''
      \<and> site_type dynamic_site = Some ''dynamic''
      \<and> site_selectors dynamic_site = Some [(''title'', ''h1'')]
      \<and> ''chrome'' = (case site_browser dynamic_site of None \<Rightarrow> ''chrome'' | Some b \<Rightarrow> b)
      \<and> (str_lower ''chrome'' = ''chrome'' \<or> str_lower ''chrome'' = ''firefox''
           \<or> str_lower ''chrome'' = ''safari'')
      \<and> webdriver_new dead_env (str_lower ''chrome'') (world ?st2) = (Some WebDriverException, 0)"
    unfolding l by (simp add: dynamic_site_def no_site_def dead_env_def emit_def start_def)
  have 4: "site_url opera_site = Some ''https://shop.test/p1''
      \<and> site_type opera_site = Some ''dynamic''
      \<and> site_selectors opera_site = Some [(''title'', ''h1'')]
      \<and> ''Opera'' = (case site_browser opera_site of None \<Rightarrow> ''chrome'' | Some b \<Rightarrow> b)
      \<and> str_lower ''Opera'' \<noteq> ''chrome'' \<and> str_lower ''Opera'' \<noteq> ''firefox''
      \<and> str_lower ''Opera'' \<noteq> ''safari''"
    unfolding l by (simp add: opera_site_def dynamic_site_def no_site_def)
  have e1: "emit (Log Error) ((emit (Log Info) ?st2)\<lparr>world := 0\<rparr>)
      = \<lparr> world = 0, trace = [Log Error, Log Info, Log Warning, Log Info, Log Error] \<rparr>"
    by (simp add: emit_def start_def)
  have e2: "emit (Log Error) (emit (Log Info) start) = \<lparr> world = 0, trace = [Log Info, Log Error] \<rparr>"
    by (simp add: emit_def start_def)
  note skip = run_sites_skips_or_raises [THEN conjunct1, rule_format]
  note unknown = run_sites_skips_or_raises [THEN conjunct2, THEN conjunct1, rule_format]
  note unsupported = run_sites_skips_or_raises [THEN conjunct2, THEN conjunct2, THEN conjunct1,
      rule_format]
  note fails = run_sites_skips_or_raises [THEN conjunct2, THEN conjunct2, THEN conjunct2,
      rule_format]
  have a: "run_sites dead_env 0 [no_site, ftp_site, dynamic_site, static_site] start =
     (Some WebDriverException,
      \<lparr> world = 0, trace = [Log Error, Log Info, Log Warning, Log Info, Log Error] \<rparr>)"
    unfolding skip [OF 1] unknown [OF 2] fails [OF 3] e1 ..
  have b: "run_sites shop_env 0 [opera_site, static_site] start =
     (Some ValueError, \<lparr> world = 0, trace = [Log Info, Log Error] \<rparr>)"
    unfolding unsupported [OF 4] e2 ..
  show ?thesis using a b by blast
qed

section \<open>The browser session\<close>

lemma walk_trace_no_quit:
  "walk_trace n st st' \<Longrightarrow> \<exists>new. trace st' = trace st @ new \<and> Quit \<notin> set new"
proof -
  assume "walk_trace n st st'"
  then obtain new where n: "trace st' = trace st @ new"
    "list_all (\<lambda>ev. is_log ev \<or> is_navigate ev) new" by (auto simp: walk_trace_def)
  have "Quit \<notin> set new"
  proof
    assume "Quit \<in> set new"
    with n(2) have "is_log Quit \<or> is_navigate Quit" unfolding list_all_iff by blast
    then show False by simp
  qed
  with n(1) show ?thesis by blast
qed

text \<open>
  Claim C8. Once \<^verbatim>\<open>get_driver\<close> has returned a driver, \<^verbatim>\<open>scrape_dynamic\<close> quits it after
  the page loop however the loop ended, with results or with an exception: the final
  state is the loop's final state with the quit applied, the quit is the last event and
  the only quit, and unless the quit itself raises the loop's outcome is the outcome of
  the scrape.
\<close>

theorem scrape_dynamic_quits_driver:
  "get_driver env browser st = (None, st1) \<Longrightarrow>
   dynamic_loop env selectors pagination limit (Some url) 0 [] st1 = (r, st2) \<Longrightarrow>
   snd (scrape_dynamic env url selectors pagination limit browser st)
      = emit Quit (st2\<lparr>world := snd (driver_quit env (world st2))\<rparr>)
   \<and> (\<exists>new. trace (snd (scrape_dynamic env url selectors pagination limit browser st))
               = trace st1 @ new @ [Quit] \<and> Quit \<notin> set new)
   \<and> (fst (driver_quit env (world st2)) = None \<longrightarrow>
        fst (scrape_dynamic env url selectors pagination limit browser st) = r)"
proof -
  assume g: "get_driver env browser st = (None, st1)"
    and l: "dynamic_loop env selectors pagination limit (Some url) 0 [] st1 = (r, st2)"
  obtain q w where q: "driver_quit env (world st2) = (q, w)"
    by (cases "driver_quit env (world st2)")
  have s: "snd (scrape_dynamic env url selectors pagination limit browser st)
             = emit Quit (st2\<lparr>world := w\<rparr>)"
    using g l q by (cases q) (simp_all add: scrape_dynamic_def)
  have f: "q = None \<Longrightarrow> fst (scrape_dynamic env url selectors pagination limit browser st) = r"
    using g l q by (simp add: scrape_dynamic_def)
  from dynamic_loop_walk[of limit 0 st1 env selectors pagination "Some url" "[]"] l
  obtain new where n: "trace st2 = trace st1 @ new" "Quit \<notin> set new"
    using walk_trace_no_quit by fastforce
  have "trace (emit Quit (st2\<lparr>world := w\<rparr>)) = trace st1 @ new @ [Quit]"
    using n(1) by (simp add: emit_def)
  then show ?thesis using s f q n(2) by auto
qed

lemma shop_driver: "get_driver shop_env ''chrome'' st = (None, st)"
  by (simp add: get_driver_def str_lower_def lower_char_def shop_env_def dead_env_def)

lemma crash_driver: "get_driver crash_env ''chrome'' st = (None, st)"
  by (simp add: get_driver_def str_lower_def lower_char_def crash_env_def shop_env_def dead_env_def)

lemma slow_driver: "get_driver slow_env ''chrome'' st = (None, st)"
  by (simp add: get_driver_def str_lower_def lower_char_def slow_env_def shop_env_def dead_env_def)

theorem scrape_dynamic_quits_driver_witness:
  "scrape_dynamic crash_env ''https://shop.test/p1'' [(''title'', ''h1'')] None 5 ''chrome'' start
     = (Inl WebDriverException,
        \<lparr> world = 1, trace = [Navigate ''https://shop.test/p1'', Quit] \<rparr>)
   \<and> scrape_dynamic slow_env ''https://shop.test/p1'' [(''title'', ''h1'')] None 5 ''chrome'' start
     = (Inr [], \<lparr> world = 1, trace = [Navigate ''https://shop.test/p1'', Log Error, Quit] \<rparr>)"
proof -
  let ?u = "''https://shop.test/p1''"
  have c: "dynamic_loop crash_env [(''title'', ''h1'')] None 5 (Some ?u) 0 [] start
             = (Inl WebDriverException, emit (Navigate ?u) (start\<lparr>world := 1\<rparr>))"
    by (rule dynamic_loop_get_raises) (simp_all add: crash_env_def start_def)
  have s: "dynamic_loop slow_env [(''title'', ''h1'')] None 5 (Some ?u) 0 [] start
             = (Inr [], emit (Log Error) (emit (Navigate ?u) (start\<lparr>world := 1\<rparr>)))"
    by (rule dynamic_loop_not_ready[where w = 1])
       (simp_all add: slow_env_def shop_env_def dead_env_def start_def)
  have qc: "driver_quit crash_env w = (None, w)" for w
    by (simp add: crash_env_def shop_env_def dead_env_def)
  have qs: "driver_quit slow_env w = (None, w)" for w
    by (simp add: slow_env_def shop_env_def dead_env_def)
  note tc = scrape_dynamic_quits_driver [OF crash_driver c]
  note ts = scrape_dynamic_quits_driver [OF slow_driver s]
  have "snd (scrape_dynamic crash_env ?u [(''title'', ''h1'')] None 5 ''chrome'' start)
          = \<lparr> world = 1, trace = [Navigate ?u, Quit] \<rparr>"
    using tc [THEN conjunct1] by (simp add: qc emit_def start_def)
  moreover have "fst (scrape_dynamic crash_env ?u [(''title'', ''h1'')] None 5 ''chrome'' start)
          = Inl WebDriverException"
    using tc [THEN conjunct2, THEN conjunct2] by (simp add: qc)
  moreover have "snd (scrape_dynamic slow_env ?u [(''title'', ''h1'')] None 5 ''chrome'' start)
          = \<lparr> world = 1, trace = [Navigate ?u, Log Error, Quit] \<rparr>"
    using ts [THEN conjunct1] by (simp add: qs emit_def start_def)
  moreover have "fst (scrape_dynamic slow_env ?u [(''title'', ''h1'')] None 5 ''chrome'' start)
          = Inr []"
    using ts [THEN conjunct2, THEN conjunct2] by (simp add: qs)
  ultimately show ?thesis by (simp add: prod_eq_iff)
qed


section \<open>The wait after a click\<close>

lemmas shop_defs = shop_env_def dead_env_def shop_text_def
lemmas str_defs = str_lower_def lower_char_def str_strip_def is_space_def

lemma py_or_first: "py_or (Staleness_of el) c = Staleness_of el"
  by (simp add: py_or_def truthy_condition_def)

text \<open>
  Claim C3, on the code. The wait after a click is given
  \<^verbatim>\<open>EC.staleness_of(el) or EC.presence_of_element_located(...)\<close>, which is the staleness
  condition alone. In a shop that updates its page in place the ready marker is there
  when waited for, yet the wait after the click on the first colour times out, and the
  page yields its base record and no variation record: both colours are skipped.
\<close>

theorem wait_ignores_ready_marker:
  "driver_wait inplace_env 5 (Presence_of_element_located ready_marker) 1 = (None, 1)
   \<and> click_and_wait inplace_env 1 start = (Some TimeoutException, \<lparr> world = 1, trace = [] \<rparr>)
   \<and> dynamic_page inplace_env
        [(''title'', ''h1''), (''color_variation'', ''.color''), (''size_variation'', ''.size'')]
        [] start
      = (Inr [[(''title'', VStr ''Shirt'')]], \<lparr> world = 2, trace = [Log Warning, Log Warning] \<rparr>)"
proof (intro conjI)
  show "driver_wait inplace_env 5 (Presence_of_element_located ready_marker) 1 = (None, 1)"
    by (simp add: inplace_env_def)
  show c: "click_and_wait inplace_env 1 start = (Some TimeoutException, \<lparr> world = 1, trace = [] \<rparr>)"
    by (simp add: click_and_wait_def py_or_first inplace_env_def shop_defs start_def)
  have t: "trigger inplace_env (Some el) st = (False, emit (Log Warning) (st\<lparr>world := Suc (world st)\<rparr>))" for el st
    by (simp add: trigger_def click_and_wait_def py_or_first inplace_env_def shop_defs)
  have b: "dynamic_fields inplace_env
        [(''title'', ''h1''), (''color_variation'', ''.color''), (''size_variation'', ''.size'')]
        ([], False, start) = ([(''title'', VStr ''Shirt'')], True, start)"
    by (simp add: dynamic_field_def dynamic_value_def inplace_env_def shop_defs str_defs)
  have ce: "variation_elements inplace_env (Some ''.color'') w = Inr [Some 1, Some 2]" for w
    by (simp add: variation_elements_def inplace_env_def shop_defs)
  have se: "variation_elements inplace_env (Some ''.size'') w = Inr [Some 3, Some 4, Some 5]" for w
    by (simp add: variation_elements_def inplace_env_def shop_defs)
  show "dynamic_page inplace_env
        [(''title'', ''h1''), (''color_variation'', ''.color''), (''size_variation'', ''.size'')]
        [] start
      = (Inr [[(''title'', VStr ''Shirt'')]], \<lparr> world = 2, trace = [Log Warning, Log Warning] \<rparr>)"
    unfolding dynamic_page_def b
    by (simp add: ce se t append_if_found_def emit_def start_def)
qed


section \<open>Field extraction\<close>

lemma map_of_dict_set: "map_of (dict_set k v d) = (map_of d)(k \<mapsto> v)"
  by (induction d) (auto simp: fun_eq_iff)

lemma static_field_sets:
  "\<exists>v. map_of (fst (static_field soup item acc)) = (map_of (fst acc))(fst item \<mapsto> v)"
  by (auto simp: static_field_def Let_def map_of_dict_set)

lemma static_field_plain:
  "str_lower name \<notin> set [''images'', ''colors'', ''sizes''] \<Longrightarrow>
   map_of (fst (static_field soup (name, selector) acc)) =
     (map_of (fst acc))(name \<mapsto> scalar_or_list (filter (\<lambda>t. t \<noteq> []) (map tag_text (soup selector))))"
  by (auto simp: static_field_def Let_def map_of_dict_set scalar_or_list_def)

lemma static_fields_other:
  "name \<notin> fst ` set items \<Longrightarrow>
   map_of (fst (static_fields soup items acc)) name = map_of (fst acc) name"
proof (induction items arbitrary: acc)
  case Nil
  show ?case by simp
next
  case (Cons item items)
  obtain v where "map_of (fst (static_field soup item acc)) = (map_of (fst acc))(fst item \<mapsto> v)"
    using static_field_sets by blast
  then show ?case using Cons by simp
qed

lemma static_fields_plain:
  "distinct (map fst selectors) \<Longrightarrow> (name, selector) \<in> set selectors \<Longrightarrow>
   str_lower name \<notin> set [''images'', ''colors'', ''sizes''] \<Longrightarrow>
   map_of (fst (static_fields soup selectors acc)) name =
     Some (scalar_or_list (filter (\<lambda>t. t \<noteq> []) (map tag_text (soup selector))))"
proof (induction selectors arbitrary: acc)
  case Nil
  then show ?case by simp
next
  case (Cons item items)
  show ?case
  proof (cases "item = (name, selector)")
    case True
    then have "name \<notin> fst ` set items" using Cons.prems(1) by auto
    then show ?thesis
      using static_fields_other[of name items soup "static_field soup item acc"]
        static_field_plain[OF Cons.prems(3), of soup selector acc] True by simp
  next
    case False
    then show ?thesis using Cons by auto
  qed
qed

lemma dynamic_field_world: "world (snd (snd (dynamic_field env item acc))) = world (snd (snd acc))"
  by (auto simp: dynamic_field_def Let_def emit_def split: sum.splits)

lemma dynamic_fields_world: "world (snd (snd (dynamic_fields env items acc))) = world (snd (snd acc))"
  by (induction items arbitrary: acc) (simp_all add: dynamic_field_world)

lemma dynamic_field_sets:
  "fst (dynamic_field env item acc) = fst acc \<or>
   (\<exists>v. map_of (fst (dynamic_field env item acc)) = (map_of (fst acc))(fst item \<mapsto> v))"
  by (auto simp: dynamic_field_def Let_def map_of_dict_set split: sum.splits)

lemma dynamic_fields_other:
  "name \<notin> fst ` set items \<Longrightarrow>
   map_of (fst (dynamic_fields env items acc)) name = map_of (fst acc) name"
proof (induction items arbitrary: acc)
  case Nil
  show ?case by simp
next
  case (Cons item items)
  have "map_of (fst (dynamic_field env item acc)) name = map_of (fst acc) name"
    using dynamic_field_sets[of env item acc] Cons.prems by auto
  then show ?case using Cons by simp
qed

lemma collect_texts_ok:
  "\<forall>el \<in> set elements. element_text env el w = Inr (txt el) \<Longrightarrow>
   collect_texts env elements w =
     Inr (filter (\<lambda>t. t \<noteq> []) (map (\<lambda>el. str_strip (txt el)) elements))"
  by (induction elements) simp_all

lemma dynamic_field_plain:
  assumes "name \<notin> set [''color_variation'', ''size_variation'']"
    and "str_lower name \<notin> set [''images'', ''colors'', ''sizes'']"
    and "find_elements env selector (world (snd (snd acc))) = Inr elements"
    and "\<forall>el \<in> set elements. element_text env el (world (snd (snd acc))) = Inr (txt el)"
  shows "map_of (fst (dynamic_field env (name, selector) acc)) =
     (map_of (fst acc))(name \<mapsto>
        (case filter (\<lambda>t. t \<noteq> []) (map (\<lambda>el. str_strip (txt el)) elements) of
           t # _ \<Rightarrow> VStr t | [] \<Rightarrow> VNone))"
proof (cases "elements = []")
  case True
  then show ?thesis using assms(1,3)
    by (simp add: dynamic_field_def Let_def map_of_dict_set)
next
  case False
  have "dynamic_value env name elements (world (snd (snd acc))) =
      Inr (case filter (\<lambda>t. t \<noteq> []) (map (\<lambda>el. str_strip (txt el)) elements) of
           t # _ \<Rightarrow> VStr t | [] \<Rightarrow> VNone)"
    using assms(2) collect_texts_ok[OF assms(4)] by (simp add: dynamic_value_def)
  then show ?thesis using assms(1,3) False
    by (simp add: dynamic_field_def Let_def map_of_dict_set)
qed

lemma dynamic_fields_plain:
  "distinct (map fst selectors) \<Longrightarrow> (name, selector) \<in> set selectors \<Longrightarrow>
   name \<notin> set [''color_variation'', ''size_variation''] \<Longrightarrow>
   str_lower name \<notin> set [''images'', ''colors'', ''sizes''] \<Longrightarrow>
   find_elements env selector (world (snd (snd acc))) = Inr elements \<Longrightarrow>
   \<forall>el \<in> set elements. element_text env el (world (snd (snd acc))) = Inr (txt el) \<Longrightarrow>
   map_of (fst (dynamic_fields env selectors acc)) name =
     Some (case filter (\<lambda>t. t \<noteq> []) (map (\<lambda>el. str_strip (txt el)) elements) of
           t # _ \<Rightarrow> VStr t | [] \<Rightarrow> VNone)"
proof (induction selectors arbitrary: acc)
  case Nil
  then show ?case by simp
next
  case (Cons item items)
  show ?case
  proof (cases "item = (name, selector)")
    case True
    then have "name \<notin> fst ` set items" using Cons.prems(1) by auto
    then show ?thesis
      using dynamic_fields_other[of name items env "dynamic_field env item acc"]
        dynamic_field_plain[OF Cons.prems(3,4,5,6)] True by simp
  next
    case False
    then have "map_of (fst (dynamic_fields env items (dynamic_field env item acc))) name =
     Some (case filter (\<lambda>t. t \<noteq> []) (map (\<lambda>el. str_strip (txt el)) elements) of
           t # _ \<Rightarrow> VStr t | [] \<Rightarrow> VNone)"
      using Cons.prems by (intro Cons.IH) (auto simp: dynamic_field_world)
    then show ?thesis by simp
  qed
qed


section \<open>The value of a plain field\<close>

text \<open>
  Claim C2, on the code. A price selector matches two elements with the texts \<open>10 EUR\<close>
  and \<open>12 EUR\<close>. The static path makes the field the list of both, in document order,
  as the claim says. The dynamic path, on the same two texts, makes the field the scalar
  \<open>10 EUR\<close>: it takes \<^verbatim>\<open>texts[0]\<close> whatever the number of texts, and the second text is
  lost.
\<close>

theorem dynamic_field_takes_first:
  "static_fields price_page [(''price'', ''.price'')] ([], False)
     = ([(''price'', VList [VStr ''10 EUR'', VStr ''12 EUR''])], True)
   \<and> find_elements shop_env ''.price'' 0 = Inr [11, 12]
   \<and> collect_texts shop_env [11, 12] 0 = Inr [''10 EUR'', ''12 EUR'']
   \<and> dynamic_page shop_env [(''price'', ''.price'')] [] start
        = (Inr [[(''price'', VStr ''10 EUR'')]], start)
   \<and> VStr ''10 EUR'' \<noteq> VList [VStr ''10 EUR'', VStr ''12 EUR'']"
proof -
  have "static_fields price_page [(''price'', ''.price'')] ([], False)
     = ([(''price'', VList [VStr ''10 EUR'', VStr ''12 EUR''])], True)"
    by (simp add: static_field_def scalar_or_list_def price_page_def text_tag_def str_defs)
  moreover have "find_elements shop_env ''.price'' 0 = Inr [11, 12]
   \<and> collect_texts shop_env [11, 12] 0 = Inr [''10 EUR'', ''12 EUR'']
   \<and> dynamic_page shop_env [(''price'', ''.price'')] [] start
        = (Inr [[(''price'', VStr ''10 EUR'')]], start)
   \<and> VStr ''10 EUR'' \<noteq> VList [VStr ''10 EUR'', VStr ''12 EUR'']"
    by (simp add: dynamic_page_def dynamic_field_def dynamic_value_def append_if_found_def
        shop_defs str_defs)
  ultimately show ?thesis by blast
qed

lemma scalar_or_list_many: "2 \<le> length ts \<Longrightarrow> scalar_or_list ts = VList (map VStr ts)"
  by (simp add: scalar_or_list_def)

text \<open>
  What the two paths do with a field whose lower-cased name is not one of \<open>images\<close>,
  \<open>colors\<close>, \<open>sizes\<close>. The static path: one non-empty text gives that scalar, two or
  more give the list of all of them in document order. The dynamic path, for a field
  other than the two variation triggers whose elements are found and read without an
  exception: one or more non-empty trimmed texts give the first of them as a scalar.
\<close>

lemma plain_field_value:
  "distinct (map fst selectors) \<Longrightarrow> (name, selector) \<in> set selectors \<Longrightarrow>
   str_lower name \<notin> set [''images'', ''colors'', ''sizes''] \<Longrightarrow>
   (\<forall>t. filter (\<lambda>t. t \<noteq> []) (map tag_text (soup selector)) = [t] \<longrightarrow>
        map_of (fst (static_fields soup selectors ([], False))) name = Some (VStr t))
   \<and> (2 \<le> length (filter (\<lambda>t. t \<noteq> []) (map tag_text (soup selector))) \<longrightarrow>
        map_of (fst (static_fields soup selectors ([], False))) name
          = Some (VList (map VStr (filter (\<lambda>t. t \<noteq> []) (map tag_text (soup selector))))))
   \<and> (name \<notin> set [''color_variation'', ''size_variation'']
        \<and> find_elements env selector (world st) = Inr elements
        \<and> (\<forall>el \<in> set elements. element_text env el (world st) = Inr (txt el)) \<longrightarrow>
        (\<forall>t rest. filter (\<lambda>t. t \<noteq> []) (map (\<lambda>el. str_strip (txt el)) elements) = t # rest \<longrightarrow>
           map_of (fst (dynamic_fields env selectors (seed, False, st))) name = Some (VStr t)))"
proof -
  assume a: "distinct (map fst selectors)" "(name, selector) \<in> set selectors"
    "str_lower name \<notin> set [''images'', ''colors'', ''sizes'']"
  note s = static_fields_plain[OF a, of soup "([], False)"]
  have 1: "\<forall>t. filter (\<lambda>t. t \<noteq> []) (map tag_text (soup selector)) = [t] \<longrightarrow>
        map_of (fst (static_fields soup selectors ([], False))) name = Some (VStr t)"
  proof (intro allI impI)
    fix t assume e: "filter (\<lambda>t. t \<noteq> []) (map tag_text (soup selector)) = [t]"
    show "map_of (fst (static_fields soup selectors ([], False))) name = Some (VStr t)"
      unfolding s e by (simp add: scalar_or_list_def)
  qed
  have 2: "2 \<le> length (filter (\<lambda>t. t \<noteq> []) (map tag_text (soup selector))) \<longrightarrow>
        map_of (fst (static_fields soup selectors ([], False))) name
          = Some (VList (map VStr (filter (\<lambda>t. t \<noteq> []) (map tag_text (soup selector)))))"
  proof
    assume l: "2 \<le> length (filter (\<lambda>t. t \<noteq> []) (map tag_text (soup selector)))"
    show "map_of (fst (static_fields soup selectors ([], False))) name
          = Some (VList (map VStr (filter (\<lambda>t. t \<noteq> []) (map tag_text (soup selector)))))"
      unfolding s by (simp only: scalar_or_list_many[OF l])
  qed
  have 3: "name \<notin> set [''color_variation'', ''size_variation'']
        \<and> find_elements env selector (world st) = Inr elements
        \<and> (\<forall>el \<in> set elements. element_text env el (world st) = Inr (txt el)) \<longrightarrow>
        (\<forall>t rest. filter (\<lambda>t. t \<noteq> []) (map (\<lambda>el. str_strip (txt el)) elements) = t # rest \<longrightarrow>
           map_of (fst (dynamic_fields env selectors (seed, False, st))) name = Some (VStr t))"
  proof (intro impI allI, elim conjE)
    fix t rest
    assume b: "name \<notin> set [''color_variation'', ''size_variation'']"
      "find_elements env selector (world st) = Inr elements"
      "\<forall>el \<in> set elements. element_text env el (world st) = Inr (txt el)"
      and c: "filter (\<lambda>t. t \<noteq> []) (map (\<lambda>el. str_strip (txt el)) elements) = t # rest"
    show "map_of (fst (dynamic_fields env selectors (seed, False, st))) name = Some (VStr t)"
    proof -
      have "map_of (fst (dynamic_fields env selectors (seed, False, st))) name =
        Some (case filter (\<lambda>t. t \<noteq> []) (map (\<lambda>el. str_strip (txt el)) elements) of
              t # _ \<Rightarrow> VStr t | [] \<Rightarrow> VNone)"
        by (rule dynamic_fields_plain [OF a(1) a(2) b(1) a(3)]) (simp_all add: b)
      then show ?thesis by (simp add: c)
    qed
  qed
  show ?thesis using 1 2 3 by blast
qed

lemma plain_names:
  "str_lower ''title'' \<notin> set [''images'', ''colors'', ''sizes'']"
  "str_lower ''items'' \<notin> set [''images'', ''colors'', ''sizes'']"
  "str_lower ''price'' \<notin> set [''images'', ''colors'', ''sizes'']"
  by (simp_all add: str_defs)

lemma plain_field_value_example:
  "map_of (fst (static_fields page_one [(''title'', ''h1''), (''items'', ''li'')] ([], False))) ''title''
     = Some (VStr ''A'')
   \<and> map_of (fst (static_fields page_one [(''title'', ''h1''), (''items'', ''li'')] ([], False))) ''items''
     = Some (VList [VStr ''x'', VStr ''y''])
   \<and> map_of (fst (dynamic_fields shop_env [(''title'', ''h1''), (''price'', ''.price'')]
                     ([], False, start))) ''price''
     = Some (VStr ''10 EUR'')"
proof -
  let ?sels = "[(''title'', ''h1''), (''items'', ''li'')]"
  let ?dsels = "[(''title'', ''h1''), (''price'', ''.price'')]"
  have d: "distinct (map fst ?sels)" "distinct (map fst ?dsels)" by simp_all
  have m: "(''title'', ''h1'') \<in> set ?sels" "(''items'', ''li'') \<in> set ?sels"
    "(''price'', ''.price'') \<in> set ?dsels" by simp_all
  have t1: "filter (\<lambda>t. t \<noteq> []) (map tag_text (page_one ''h1'')) = [''A'']"
    by (simp add: page_one_def text_tag_def)
  have t2: "filter (\<lambda>t. t \<noteq> []) (map tag_text (page_one ''li'')) = [''x'', ''y'']"
    by (simp add: page_one_def text_tag_def)
  have e: "''price'' \<notin> set [''color_variation'', ''size_variation'']
        \<and> find_elements shop_env ''.price'' (world start) = Inr [11, 12]
        \<and> (\<forall>el \<in> set [11, 12]. element_text shop_env el (world start) = Inr (shop_text el))"
    by (simp add: shop_env_def dead_env_def)
  have t3: "filter (\<lambda>t. t \<noteq> []) (map (\<lambda>el. str_strip (shop_text el)) [11, 12])
              = ''10 EUR'' # [''12 EUR'']"
    by (simp add: shop_text_def str_defs)
  note a = plain_field_value [OF d(1) m(1) plain_names(1), of page_one, THEN conjunct1, rule_format, OF t1]
  note b = plain_field_value [OF d(1) m(2) plain_names(2), of page_one, THEN conjunct2, THEN conjunct1,
       rule_format]
  note c = plain_field_value [OF d(2) m(3) plain_names(3), THEN conjunct2, THEN conjunct2,
       rule_format, OF e t3]
  have b': "map_of (fst (static_fields page_one ?sels ([], False))) ''items''
     = Some (VList [VStr ''x'', VStr ''y''])"
    using b unfolding t2 by simp
  show ?thesis using a b' c by blast
qed


section \<open>The guard on appending a record\<close>

lemma static_field_flag:
  "snd (static_field soup item acc) = (snd acc \<or> soup (snd item) \<noteq> [])"
  by (simp add: static_field_def Let_def)

lemma static_fields_flag:
  "snd (static_fields soup items acc) = (snd acc \<or> static_matched soup items)"
  by (induction items arbitrary: acc) (auto simp: static_field_flag static_matched_def)

lemma dynamic_field_flag:
  "fst (snd (dynamic_field env item acc)) =
     (fst (snd acc) \<or> (fst item \<notin> set [''color_variation'', ''size_variation'']
        \<and> (case find_elements env (snd item) (world (snd (snd acc))) of
              Inr els \<Rightarrow> els \<noteq> [] | Inl e \<Rightarrow> False)))"
  by (auto simp: dynamic_field_def Let_def split: sum.splits)

lemma dynamic_fields_flag:
  "fst (snd (dynamic_fields env items acc)) =
     (fst (snd acc) \<or> dynamic_matched env items (world (snd (snd acc))))"
proof (induction items arbitrary: acc)
  case Nil
  show ?case by (simp add: dynamic_matched_def)
next
  case (Cons item items)
  show ?case
    unfolding dynamic_fields.simps Cons.IH dynamic_field_flag dynamic_field_world
    by (auto simp: dynamic_matched_def)
qed

lemma static_loop_exit:
  assumes "\<not> (truthy current_url \<and> pages_scraped < limit)"
  shows "static_loop env url selectors pagination limit current_url pages_scraped results st
           = (Inr results, st)"
  by (subst static_loop.simps) (simp only: assms if_False)

lemma static_loop_failed:
  "cur \<noteq> [] \<Longrightarrow> pages_scraped < limit \<Longrightarrow>
   requests_get_soup env cur (world st) = (Inl RequestException, w) \<Longrightarrow>
   static_loop env url selectors pagination limit (Some cur) pages_scraped results st
     = (Inr results, emit (Log Error) (emit (Request cur) (st\<lparr>world := w\<rparr>)))"
  by (subst static_loop.simps) simp

lemma static_loop_raises:
  "cur \<noteq> [] \<Longrightarrow> pages_scraped < limit \<Longrightarrow>
   requests_get_soup env cur (world st) = (Inl e, w) \<Longrightarrow> e \<noteq> RequestException \<Longrightarrow>
   static_loop env url selectors pagination limit (Some cur) pages_scraped results st
     = (Inl e, emit (Request cur) (st\<lparr>world := w\<rparr>))"
  by (subst static_loop.simps) simp

lemma static_loop_next:
  "cur \<noteq> [] \<Longrightarrow> pages_scraped < limit \<Longrightarrow>
   requests_get_soup env cur (world st) = (Inr soup, w) \<Longrightarrow>
   static_loop env url selectors pagination limit (Some cur) pages_scraped results st
     = static_loop env url selectors pagination limit (static_next env url pagination soup)
         (pages_scraped + 1) (append_if_found (static_fields soup selectors ([], False)) results)
         (emit (Log Info) (emit (Request cur) (st\<lparr>world := w\<rparr>)))"
  by (subst static_loop.simps) simp

lemma rows_all_Inl [simp]: "rows_all P (Inl e)"
  by (simp add: rows_all_def)

lemma rows_all_Inr [simp]: "rows_all P (Inr rows) = (\<forall>row \<in> set rows. P row)"
  by (simp add: rows_all_def)

lemma static_loop_rows:
  assumes P: "\<And>u w soup w'. requests_get_soup env u w = (Inr soup, w') \<Longrightarrow>
                static_matched soup selectors \<Longrightarrow>
                P (fst (static_fields soup selectors ([], False)))"
  shows "\<forall>row \<in> set results. P row \<Longrightarrow>
     rows_all P (fst (static_loop env url selectors pagination limit current_url pages_scraped results st))"
proof (induction "nat (limit - pages_scraped)" arbitrary: current_url pages_scraped results st)
  case 0
  then have "\<not> (truthy current_url \<and> pages_scraped < limit)" by simp
  then show ?case using 0 by (simp add: static_loop_exit)
next
  case (Suc n)
  then have lt: "pages_scraped < limit" and n: "n = nat (limit - (pages_scraped + 1))" by simp_all
  show ?case
  proof (cases "truthy current_url")
    case False
    then show ?thesis using Suc.prems by (simp add: static_loop_exit)
  next
    case True
    then obtain cur where cur: "current_url = Some cur" "cur \<noteq> []" by (cases current_url) simp_all
    obtain r w where g: "requests_get_soup env cur (world st) = (r, w)"
      by (cases "requests_get_soup env cur (world st)")
    show ?thesis
    proof (cases r)
      case (Inl e)
      show ?thesis
      proof (cases "e = RequestException")
        case True
        then show ?thesis using Suc.prems
          by (simp add: cur static_loop_failed[OF cur(2) lt g[unfolded Inl True]])
      next
        case False
        then show ?thesis
          by (simp add: cur static_loop_raises[OF cur(2) lt g[unfolded Inl] False])
      qed
    next
      case (Inr soup)
      let ?rec = "static_fields soup selectors ([], False)"
      have "\<forall>row \<in> set (append_if_found ?rec results). P row"
        using Suc.prems P[OF g[unfolded Inr]] static_fields_flag[of soup selectors "([], False)"]
        by (auto simp: append_if_found_def)
      from Suc.hyps(1)[OF n this] show ?thesis
        by (simp add: cur static_loop_next[OF cur(2) lt g[unfolded Inr]])
    qed
  qed
qed

lemma append_if_found_rows:
  "\<forall>row \<in> set results. P row \<Longrightarrow> (snd rec \<Longrightarrow> P (fst rec)) \<Longrightarrow>
   \<forall>row \<in> set (append_if_found rec results). P row"
  by (auto simp: append_if_found_def)

lemma variation_record_row:
  assumes P: "\<And>seed st0. dynamic_matched env selectors (world st0) \<Longrightarrow>
                P (fst (dynamic_fields env selectors (seed, False, st0)))"
    and v: "variation_record env selectors c s st = (Inr var, st2)"
  shows "snd var \<Longrightarrow> P (fst var)"
proof -
  assume f: "snd var"
  from v obtain x y where
    var: "var = (fst (dynamic_fields env selectors ([(''variation_color'', VStr x), (''variation_size'', VStr y)], False, st)),
                 fst (snd (dynamic_fields env selectors ([(''variation_color'', VStr x), (''variation_size'', VStr y)], False, st))))"
    by (auto simp: variation_record_def Let_def split: sum.splits)
  have "dynamic_matched env selectors (world st)"
    using f unfolding var by (simp add: dynamic_fields_flag)
  from P[OF this] show "P (fst var)" unfolding var by simp
qed

lemma size_loop_rows:
  assumes P: "\<And>seed st0. dynamic_matched env selectors (world st0) \<Longrightarrow>
                P (fst (dynamic_fields env selectors (seed, False, st0)))"
  shows "\<forall>row \<in> set results. P row \<Longrightarrow>
         rows_all P (fst (size_loop env selectors c ss results st))"
proof (induction ss arbitrary: results st)
  case Nil
  then show ?case by simp
next
  case (Cons s ss)
  obtain b st1 where t: "trigger env s st = (b, st1)" by (cases "trigger env s st")
  show ?case
  proof (cases b)
    case False
    then show ?thesis using t Cons by simp
  next
    case True
    obtain r st2 where v: "variation_record env selectors c s st1 = (r, st2)"
      by (cases "variation_record env selectors c s st1")
    show ?thesis
    proof (cases r)
      case (Inl e)
      then show ?thesis using t True v by simp
    next
      case (Inr var)
      have "\<forall>row \<in> set (append_if_found var results). P row"
        using append_if_found_rows[OF Cons.prems] variation_record_row[where P = P and env = env and selectors = selectors, OF P v[unfolded Inr]]
        by blast
      from Cons.IH[OF this] show ?thesis using t True v Inr by simp
    qed
  qed
qed

lemma color_loop_rows:
  assumes P: "\<And>seed st0. dynamic_matched env selectors (world st0) \<Longrightarrow>
                P (fst (dynamic_fields env selectors (seed, False, st0)))"
  shows "\<forall>row \<in> set results. P row \<Longrightarrow>
         rows_all P (fst (color_loop env selectors cs ss results st))"
proof (induction cs arbitrary: results st)
  case Nil
  then show ?case by simp
next
  case (Cons c cs)
  obtain b st1 where t: "trigger env c st = (b, st1)" by (cases "trigger env c st")
  show ?case
  proof (cases b)
    case False
    then show ?thesis using t Cons by simp
  next
    case True
    obtain r st2 where v: "size_loop env selectors c ss results st1 = (r, st2)"
      by (cases "size_loop env selectors c ss results st1")
    show ?thesis
    proof (cases r)
      case (Inl e)
      then show ?thesis using t True v by simp
    next
      case (Inr results')
      have "\<forall>row \<in> set results'. P row"
        using size_loop_rows[of env selectors P results c ss st1, OF P Cons.prems] v Inr by simp
      from Cons.IH[OF this] show ?thesis using t True v Inr by simp
    qed
  qed
qed

lemma dynamic_page_rows:
  assumes P: "\<And>seed st0. dynamic_matched env selectors (world st0) \<Longrightarrow>
                P (fst (dynamic_fields env selectors (seed, False, st0)))"
    and r: "\<forall>row \<in> set results. P row"
  shows "rows_all P (fst (dynamic_page env selectors results st))"
proof -
  let ?base = "dynamic_fields env selectors ([], False, st)"
  let ?results1 = "append_if_found (fst ?base, fst (snd ?base)) results"
  have "fst (snd ?base) \<Longrightarrow> P (fst ?base)"
    using P[of st "[]"] by (simp add: dynamic_fields_flag)
  then have r1: "\<forall>row \<in> set ?results1. P row"
    using append_if_found_rows[OF r, of "(fst ?base, fst (snd ?base))"] by simp
  show ?thesis
    using r1 color_loop_rows[of env selectors P ?results1, OF P r1]
    by (simp add: dynamic_page_def Let_def split: sum.splits)
qed

lemma dynamic_loop_rows:
  assumes P: "\<And>seed st0. dynamic_matched env selectors (world st0) \<Longrightarrow>
                P (fst (dynamic_fields env selectors (seed, False, st0)))"
  shows "\<forall>row \<in> set results. P row \<Longrightarrow>
     rows_all P (fst (dynamic_loop env selectors pagination limit current_url pages_scraped results st))"
proof (induction "nat (limit - pages_scraped)" arbitrary: current_url pages_scraped results st)
  case 0
  then have "\<not> (truthy current_url \<and> pages_scraped < limit)" by simp
  then show ?case using 0 by (simp add: dynamic_loop_exit)
next
  case (Suc n)
  then have lt: "pages_scraped < limit" and n: "n = nat (limit - (pages_scraped + 1))" by simp_all
  show ?case
  proof (cases "truthy current_url")
    case False
    then show ?thesis using Suc.prems by (simp add: dynamic_loop_exit)
  next
    case True
    then obtain cur where cur: "current_url = Some cur" "cur \<noteq> []" by (cases current_url) simp_all
    obtain r w where g: "driver_get env cur (world st) = (r, w)"
      by (cases "driver_get env cur (world st)")
    show ?thesis
    proof (cases r)
      case (Some e)
      show ?thesis by (simp add: cur dynamic_loop_get_raises[OF cur(2) lt g[unfolded Some]])
    next
      case None
      obtain r' w' where wt: "driver_wait env 10 (Presence_of_element_located ready_marker) w = (r', w')"
        by (cases "driver_wait env 10 (Presence_of_element_located ready_marker) w")
      let ?st0 = "emit (Navigate cur) (st\<lparr>world := w'\<rparr>)"
      show ?thesis
      proof (cases r')
        case (Some e)
        show ?thesis using Suc.prems
          by (simp add: cur dynamic_loop_not_ready[OF cur(2) lt g[unfolded None] wt[unfolded Some]])
      next
        case None': None
        obtain pr st1 where pg: "dynamic_page env selectors results ?st0 = (pr, st1)"
          by (cases "dynamic_page env selectors results ?st0")
        show ?thesis
        proof (cases pr)
          case (Inl e)
          show ?thesis
            by (simp add: cur dynamic_loop_page_raises[OF cur(2) lt g[unfolded None] wt[unfolded None'] pg[unfolded Inl]])
        next
          case (Inr results')
          obtain next_url st2 where nx: "dynamic_next env pagination cur st1 = (next_url, st2)"
            by (cases "dynamic_next env pagination cur st1")
          have "\<forall>row \<in> set results'. P row"
            using dynamic_page_rows[of env selectors P results ?st0, OF P Suc.prems] pg Inr by simp
          from Suc.hyps(1)[OF n this] show ?thesis
            by (simp add: cur dynamic_loop_next[OF cur(2) lt g[unfolded None] wt[unfolded None'] pg[unfolded Inr] nx])
        qed
      qed
    qed
  qed
qed

lemma scrape_dynamic_rows:
  assumes P: "\<And>seed st0. dynamic_matched env selectors (world st0) \<Longrightarrow>
                P (fst (dynamic_fields env selectors (seed, False, st0)))"
  shows "rows_all P (fst (scrape_dynamic env url selectors pagination limit browser st))"
proof -
  have e: "\<forall>row \<in> set ([] :: row list). P row" by simp
  have "rows_all P (fst (dynamic_loop env selectors pagination limit (Some url) 0 [] st1))" for st1
    using dynamic_loop_rows[where P = P and env = env and selectors = selectors, OF P e] .
  note l = this
  obtain g st1 where g: "get_driver env browser st = (g, st1)"
    by (cases "get_driver env browser st")
  obtain r st2 where r: "dynamic_loop env selectors pagination limit (Some url) 0 [] st1 = (r, st2)"
    by (cases "dynamic_loop env selectors pagination limit (Some url) 0 [] st1")
  obtain q w where q: "driver_quit env (world st2) = (q, w)"
    by (cases "driver_quit env (world st2)")
  have "rows_all P r" using l[of st1] r by simp
  then show ?thesis using g r q
    by (cases g; cases q) (simp_all add: scrape_dynamic_def)
qed

lemma two_page_walk:
  "scrape_static two_page_env ''https://x.test/p1'' [(''title'', ''h1'')] (Some ''a.next'') 2 start
     = (Inr [[(''title'', VStr ''A'')], [(''title'', VStr ''B'')]],
        \<lparr> world = 2, trace = [Request ''https://x.test/p1'', Log Info,
                                Request ''https://x.test/p2'', Log Info] \<rparr>)"
proof -
  let ?sels = "[(''title'', ''h1'')]"
  have g1: "requests_get_soup two_page_env ''https://x.test/p1'' w = (Inr page_one, Suc w)" for w
    by (simp add: two_page_env_def)
  have g2: "requests_get_soup two_page_env ''https://x.test/p2'' w = (Inr page_two, Suc w)" for w
    by (simp add: two_page_env_def)
  have n1: "static_next two_page_env ''https://x.test/p1'' (Some ''a.next'') page_one
              = Some ''https://x.test/p2''"
    by (simp add: static_next_def select_one_def page_one_def link_tag_def two_page_env_def)
  have f1: "static_fields page_one ?sels ([], False) = ([(''title'', VStr ''A'')], True)"
    by (simp add: static_field_def scalar_or_list_def page_one_def text_tag_def str_defs)
  have f2: "static_fields page_two ?sels ([], False) = ([(''title'', VStr ''B'')], True)"
    by (simp add: static_field_def scalar_or_list_def page_two_def text_tag_def str_defs)
  show ?thesis
    unfolding scrape_static_def
    by (subst static_loop_next[OF _ _ g1], simp, simp, unfold n1 f1,
        subst static_loop_next[OF _ _ g2], simp, simp, unfold f2,
        subst static_loop_exit, simp,
        simp add: append_if_found_def emit_def start_def)
qed

text \<open>
  Claim C4, as the code has it. The flag \<^verbatim>\<open>any_data_found\<close> is set when a selector
  matches, before anything is read from the match. A page whose only title is empty
  makes the static walker append the record whose one field is null.
\<close>

theorem all_null_record_appended_counterexample:
  "scrape_static blank_env ''https://x.test/p1'' [(''title'', ''h1'')] None 5 start
     = (Inr [[(''title'', VNone)]],
        \<lparr> world = 1, trace = [Request ''https://x.test/p1'', Log Info] \<rparr>)"
proof -
  have g: "requests_get_soup blank_env ''https://x.test/p1'' w = (Inr blank_page, Suc w)" for w
    by (simp add: blank_env_def)
  have f: "static_fields blank_page [(''title'', ''h1'')] ([], False) = ([(''title'', VNone)], True)"
    by (simp add: static_field_def scalar_or_list_def blank_page_def text_tag_def str_defs)
  have n: "static_next blank_env ''https://x.test/p1'' None blank_page = None"
    by (simp add: static_next_def)
  show ?thesis
    unfolding scrape_static_def
    by (subst static_loop_next[OF _ _ g], simp, simp, unfold n f,
        subst static_loop_exit, simp,
        simp add: append_if_found_def emit_def start_def)
qed

lemma static_loop_page:
  assumes "cur \<noteq> []" "pages_scraped < limit"
    and "requests_get_soup env cur (world st) = (Inr soup, w)"
  shows "static_loop env url selectors pagination limit (Some cur) pages_scraped results st
     = static_loop env url selectors pagination limit (static_next env url pagination soup)
         (pages_scraped + 1)
         (if static_matched soup selectors
          then results @ [fst (static_fields soup selectors ([], False))] else results)
         (emit (Log Info) (emit (Request cur) (st\<lparr>world := w\<rparr>)))"
  unfolding static_loop_next[OF assms]
  by (simp add: append_if_found_def static_fields_flag)

lemma dynamic_page_split:
  "dynamic_page env selectors results st
     = page_variations env selectors
         (if dynamic_matched env selectors (world st)
          then results @ [fst (dynamic_fields env selectors ([], False, st))] else results)
         (snd (snd (dynamic_fields env selectors ([], False, st))))"
proof -
  let ?base = "dynamic_fields env selectors ([], False, st)"
  have a: "append_if_found (fst ?base, fst (snd ?base)) results
             = (if dynamic_matched env selectors (world st)
                then results @ [fst ?base] else results)"
    by (simp add: append_if_found_def dynamic_fields_flag)
  show ?thesis
    unfolding dynamic_page_def page_variations_def Let_def a ..
qed

lemma variation_record_flag:
  assumes "variation_record env selectors color_el size_el st1 = (Inr var, st2)"
  shows "snd var = dynamic_matched env selectors (world st1)"
proof -
  from assms obtain seed where
    "var = (fst (dynamic_fields env selectors (seed, False, st1)),
            fst (snd (dynamic_fields env selectors (seed, False, st1))))"
    by (auto simp: variation_record_def Let_def split: sum.splits)
  then show ?thesis by (simp add: dynamic_fields_flag)
qed

lemma size_loop_page:
  assumes "trigger env size_el st = (True, st1)"
    and "variation_record env selectors color_el size_el st1 = (Inr var, st2)"
  shows "size_loop env selectors color_el (size_el # rest) results st
     = size_loop env selectors color_el rest
         (if dynamic_matched env selectors (world st1) then results @ [fst var] else results) st2"
  using assms variation_record_flag[OF assms(2)]
  by (simp add: append_if_found_def)

text \<open>
  Claim C4, amended. A record is appended only if at least one of its selectors matched
  at least one element of the page. The flag that guards the append is exactly that. On
  the page the static walker has fetched, the record of that page is appended when a
  selector matched in it and nothing is appended otherwise. In the dynamic walker the
  base record is appended when a selector matches in the state of the page and not
  otherwise, and so is each variation record in the state after its clicks. Every row
  that \<^verbatim>\<open>scrape_static\<close> returns is the record of a document the site served in which a
  selector matched, and every row that \<^verbatim>\<open>scrape_dynamic\<close> returns is a record built in
  a state in which a selector matched.
\<close>

theorem record_appended_only_on_match:
  "snd (static_fields soup selectors ([], False)) = static_matched soup selectors
   \<and> fst (snd (dynamic_fields env selectors (seed, False, st)))
        = dynamic_matched env selectors (world st)
   \<and> (\<forall>cur pages_scraped results page w.
        cur \<noteq> [] \<and> pages_scraped < limit
        \<and> requests_get_soup env cur (world st) = (Inr page, w) \<longrightarrow>
        static_loop env url selectors pagination limit (Some cur) pages_scraped results st
          = static_loop env url selectors pagination limit (static_next env url pagination page)
              (pages_scraped + 1)
              (if static_matched page selectors
               then results @ [fst (static_fields page selectors ([], False))] else results)
              (emit (Log Info) (emit (Request cur) (st\<lparr>world := w\<rparr>))))
   \<and> (\<forall>results.
        dynamic_page env selectors results st
          = page_variations env selectors
              (if dynamic_matched env selectors (world st)
               then results @ [fst (dynamic_fields env selectors ([], False, st))] else results)
              (snd (snd (dynamic_fields env selectors ([], False, st)))))
   \<and> (\<forall>color_el size_el rest results st1 var st2.
        trigger env size_el st = (True, st1)
        \<and> variation_record env selectors color_el size_el st1 = (Inr var, st2) \<longrightarrow>
        size_loop env selectors color_el (size_el # rest) results st
          = size_loop env selectors color_el rest
              (if dynamic_matched env selectors (world st1) then results @ [fst var] else results)
              st2)
   \<and> (\<forall>rows st'. scrape_static env url selectors pagination limit st = (Inr rows, st') \<longrightarrow>
        (\<forall>row \<in> set rows. \<exists>u w page w'. requests_get_soup env u w = (Inr page, w')
            \<and> static_matched page selectors
            \<and> row = fst (static_fields page selectors ([], False))))
   \<and> (\<forall>rows st'. scrape_dynamic env url selectors pagination limit browser st = (Inr rows, st') \<longrightarrow>
        (\<forall>row \<in> set rows. \<exists>seed st0. dynamic_matched env selectors (world st0)
            \<and> row = fst (dynamic_fields env selectors (seed, False, st0))))"
proof (intro conjI allI impI)
  show "snd (static_fields soup selectors ([], False)) = static_matched soup selectors"
    by (simp add: static_fields_flag)
  show "fst (snd (dynamic_fields env selectors (seed, False, st)))
        = dynamic_matched env selectors (world st)"
    by (simp add: dynamic_fields_flag)
next
  fix cur pages_scraped results page w
  assume a: "cur \<noteq> [] \<and> pages_scraped < limit
        \<and> requests_get_soup env cur (world st) = (Inr page, w)"
  have b: "cur \<noteq> []" "pages_scraped < limit"
    "requests_get_soup env cur (world st) = (Inr page, w)"
    using a by blast+
  show "static_loop env url selectors pagination limit (Some cur) pages_scraped results st
          = static_loop env url selectors pagination limit (static_next env url pagination page)
              (pages_scraped + 1)
              (if static_matched page selectors
               then results @ [fst (static_fields page selectors ([], False))] else results)
              (emit (Log Info) (emit (Request cur) (st\<lparr>world := w\<rparr>)))"
    by (rule static_loop_page[OF b])
next
  fix results
  show "dynamic_page env selectors results st
          = page_variations env selectors
              (if dynamic_matched env selectors (world st)
               then results @ [fst (dynamic_fields env selectors ([], False, st))] else results)
              (snd (snd (dynamic_fields env selectors ([], False, st))))"
    by (rule dynamic_page_split)
next
  fix color_el size_el rest results st1 var st2
  assume a: "trigger env size_el st = (True, st1)
        \<and> variation_record env selectors color_el size_el st1 = (Inr var, st2)"
  have b: "trigger env size_el st = (True, st1)"
    "variation_record env selectors color_el size_el st1 = (Inr var, st2)"
    using a by blast+
  show "size_loop env selectors color_el (size_el # rest) results st
          = size_loop env selectors color_el rest
              (if dynamic_matched env selectors (world st1) then results @ [fst var] else results)
              st2"
    by (rule size_loop_page[OF b])
next
  fix rows st'
  assume a: "scrape_static env url selectors pagination limit st = (Inr rows, st')"
  let ?P = "\<lambda>row. \<exists>u w page w'. requests_get_soup env u w = (Inr page, w')
               \<and> static_matched page selectors
               \<and> row = fst (static_fields page selectors ([], False))"
  have e: "\<forall>row \<in> set ([] :: row list). ?P row" by simp
  have "rows_all ?P (fst (static_loop env url selectors pagination limit (Some url) 0 [] st))"
    by (rule static_loop_rows[where P = ?P and selectors = selectors and env = env, OF _ e]) blast
  then show "\<forall>row \<in> set rows. ?P row"
    using a by (simp add: scrape_static_def)
next
  fix rows st'
  assume a: "scrape_dynamic env url selectors pagination limit browser st = (Inr rows, st')"
  let ?P = "\<lambda>row. \<exists>seed st0. dynamic_matched env selectors (world st0)
               \<and> row = fst (dynamic_fields env selectors (seed, False, st0))"
  have "rows_all ?P (fst (scrape_dynamic env url selectors pagination limit browser st))"
    by (rule scrape_dynamic_rows[where P = ?P and selectors = selectors and env = env]) blast
  then show "\<forall>row \<in> set rows. ?P row"
    using a by simp
qed

theorem record_appended_only_on_match_witness:
  "scrape_static two_page_env ''https://x.test/p2'' [(''price'', ''.price'')] None 5 start
     = (Inr [], \<lparr> world = 1, trace = [Request ''https://x.test/p2'', Log Info] \<rparr>)
   \<and> scrape_static two_page_env ''https://x.test/p2'' [(''title'', ''h1'')] None 5 start
     = (Inr [[(''title'', VStr ''B'')]],
        \<lparr> world = 1, trace = [Request ''https://x.test/p2'', Log Info] \<rparr>)
   \<and> dynamic_page shop_env [(''missing'', ''.missing'')] [] start = (Inr [], start)"
proof -
  let ?u = "''https://x.test/p2''"
  have g: "?u \<noteq> [] \<and> (0::int) < 5
        \<and> requests_get_soup two_page_env ?u (world start) = (Inr page_two, 1)"
    by (simp add: two_page_env_def start_def)
  have n: "static_next two_page_env ?u None page_two = None"
    by (simp add: static_next_def)
  have m1: "\<not> static_matched page_two [(''price'', ''.price'')]"
    by (simp add: static_matched_def page_two_def)
  have m2: "static_matched page_two [(''title'', ''h1'')]"
    by (simp add: static_matched_def page_two_def)
  have f2: "static_fields page_two [(''title'', ''h1'')] ([], False) = ([(''title'', VStr ''B'')], True)"
    by (simp add: static_field_def scalar_or_list_def page_two_def text_tag_def str_defs)
  have e: "emit (Log Info) (emit (Request ?u) (start\<lparr>world := 1\<rparr>))
             = \<lparr> world = 1, trace = [Request ?u, Log Info] \<rparr>"
    by (simp add: emit_def start_def)
  have x: "static_loop env url selectors None limit None k results st = (Inr results, st)"
    for env :: "(nat, nat) env" and url selectors limit k results st
    by (rule static_loop_exit) simp
  note page = record_appended_only_on_match [THEN conjunct2, THEN conjunct2, THEN conjunct1,
      rule_format, OF g]
  note base = record_appended_only_on_match [THEN conjunct2, THEN conjunct2, THEN conjunct2,
      THEN conjunct1, rule_format]
  have a: "scrape_static two_page_env ?u [(''price'', ''.price'')] None 5 start
     = (Inr [], \<lparr> world = 1, trace = [Request ?u, Log Info] \<rparr>)"
    unfolding scrape_static_def page n e x using m1 by simp
  have b: "scrape_static two_page_env ?u [(''title'', ''h1'')] None 5 start
     = (Inr [[(''title'', VStr ''B'')]], \<lparr> world = 1, trace = [Request ?u, Log Info] \<rparr>)"
    unfolding scrape_static_def page n e x using m2 f2 by simp
  have m3: "\<not> dynamic_matched shop_env [(''missing'', ''.missing'')] (world start)"
    by (simp add: dynamic_matched_def shop_env_def dead_env_def)
  have d: "dynamic_fields shop_env [(''missing'', ''.missing'')] ([], False, start)
             = ([(''missing'', VNone)], False, start)"
    by (simp add: dynamic_field_def shop_env_def dead_env_def)
  have c: "dynamic_page shop_env [(''missing'', ''.missing'')] [] start = (Inr [], start)"
    unfolding base d using m3 by (simp add: page_variations_def)
  show ?thesis using a b c by blast
qed

section \<open>The page limit\<close>

lemma requests_in_emit [simp]:
  "requests_in (emit ev st) = requests_in st + (if is_request ev then 1 else 0)"
  by (simp add: requests_in_def emit_def)

lemma requests_in_world [simp]: "requests_in (st\<lparr>world := w\<rparr>) = requests_in st"
  by (simp add: requests_in_def)

lemma static_loop_requests:
  "requests_in (snd (static_loop env url selectors pagination limit current_url pages_scraped results st))
     \<le> requests_in st + nat (limit - pages_scraped)"
proof (induction "nat (limit - pages_scraped)" arbitrary: current_url pages_scraped results st)
  case 0
  then have "\<not> (truthy current_url \<and> pages_scraped < limit)" by simp
  then show ?case by (simp add: static_loop_exit)
next
  case (Suc n)
  then have lt: "pages_scraped < limit" and n: "n = nat (limit - (pages_scraped + 1))" by simp_all
  have one: "Suc n = nat (limit - pages_scraped)" using Suc.hyps(2) .
  show ?case
  proof (cases "truthy current_url")
    case False
    then show ?thesis by (simp add: static_loop_exit)
  next
    case True
    then obtain cur where cur: "current_url = Some cur" "cur \<noteq> []" by (cases current_url) simp_all
    obtain r w where g: "requests_get_soup env cur (world st) = (r, w)"
      by (cases "requests_get_soup env cur (world st)")
    show ?thesis
    proof (cases r)
      case (Inl e)
      show ?thesis
      proof (cases "e = RequestException")
        case True
        show ?thesis unfolding one[symmetric]
          by (simp add: cur static_loop_failed[OF cur(2) lt g[unfolded Inl True]])
      next
        case False
        show ?thesis unfolding one[symmetric]
          by (simp add: cur static_loop_raises[OF cur(2) lt g[unfolded Inl] False])
      qed
    next
      case (Inr soup)
      show ?thesis
        unfolding one[symmetric] cur static_loop_next[OF cur(2) lt g[unfolded Inr]]
        using Suc.hyps(1)[OF n, of "static_next env url pagination soup"
            "append_if_found (static_fields soup selectors ([], False)) results"
            "emit (Log Info) (emit (Request cur) (st\<lparr>world := w\<rparr>))"]
        by (simp add: n)
    qed
  qed
qed

lemma static_loop_full:
  assumes nx: "\<And>u w. \<exists>soup w'. requests_get_soup env u w = (Inr soup, w')
                  \<and> truthy (static_next env url pagination soup)"
  shows "truthy current_url \<Longrightarrow>
    requests_in (snd (static_loop env url selectors pagination limit current_url pages_scraped results st))
     = requests_in st + nat (limit - pages_scraped)"
proof (induction "nat (limit - pages_scraped)" arbitrary: current_url pages_scraped results st)
  case 0
  then have "\<not> (truthy current_url \<and> pages_scraped < limit)" by simp
  then show ?case using 0 by (simp add: static_loop_exit)
next
  case (Suc n)
  then have lt: "pages_scraped < limit" and n: "n = nat (limit - (pages_scraped + 1))" by simp_all
  have one: "Suc n = nat (limit - pages_scraped)" using Suc.hyps(2) .
  from Suc.prems obtain cur where cur: "current_url = Some cur" "cur \<noteq> []"
    by (cases current_url) simp_all
  from nx[of cur "world st"] obtain soup w where
    g: "requests_get_soup env cur (world st) = (Inr soup, w)"
    and t: "truthy (static_next env url pagination soup)" by blast
  show ?case
    unfolding one[symmetric] cur static_loop_next[OF cur(2) lt g]
    using Suc.hyps(1)[OF n t, of "append_if_found (static_fields soup selectors ([], False)) results"
            "emit (Log Info) (emit (Request cur) (st\<lparr>world := w\<rparr>))"]
    by (simp add: n)
qed

lemma static_loop_last_page:
  assumes "cur \<noteq> []" "pages_scraped < limit"
    and "requests_get_soup env cur (world st) = (Inr soup, w)"
    and "\<not> truthy (static_next env url pagination soup)"
  shows "static_loop env url selectors pagination limit (Some cur) pages_scraped results st
     = (Inr (append_if_found (static_fields soup selectors ([], False)) results),
        emit (Log Info) (emit (Request cur) (st\<lparr>world := w\<rparr>)))"
  unfolding static_loop_next[OF assms(1,2,3)]
  by (rule static_loop_exit) (simp add: assms(4))

lemma static_next_unconfigured: "\<not> truthy pagination \<Longrightarrow> static_next env url pagination soup = None"
  by (cases pagination) (simp_all add: static_next_def)

lemma static_loop_single:
  assumes "\<not> truthy pagination"
  shows "requests_in (snd (static_loop env url selectors pagination limit current_url pages_scraped results st))
     \<le> requests_in st + 1"
proof (cases "truthy current_url \<and> pages_scraped < limit")
  case False
  then show ?thesis by (simp add: static_loop_exit)
next
  case True
  then obtain cur where cur: "current_url = Some cur" "cur \<noteq> []" and lt: "pages_scraped < limit"
    by (cases current_url) simp_all
  obtain r w where g: "requests_get_soup env cur (world st) = (r, w)"
    by (cases "requests_get_soup env cur (world st)")
  show ?thesis
  proof (cases r)
    case (Inl e)
    show ?thesis
    proof (cases "e = RequestException")
      case True
      show ?thesis by (simp add: cur static_loop_failed[OF cur(2) lt g[unfolded Inl True]])
    next
      case False
      show ?thesis by (simp add: cur static_loop_raises[OF cur(2) lt g[unfolded Inl] False])
    qed
  next
    case (Inr soup)
    have "\<not> truthy (static_next env url pagination soup)"
      by (simp add: static_next_unconfigured[OF assms])
    from static_loop_last_page[OF cur(2) lt g[unfolded Inr] this]
    show ?thesis by (simp add: cur)
  qed
qed

lemma navigations_in_emit [simp]:
  "navigations_in (emit ev st) = navigations_in st + (if is_navigate ev then 1 else 0)"
  by (simp add: navigations_in_def emit_def)

lemma navigations_in_world [simp]: "navigations_in (st\<lparr>world := w\<rparr>) = navigations_in st"
  by (simp add: navigations_in_def)

lemma walk_trace_navigations:
  "walk_trace n st st' \<Longrightarrow> navigations_in st' \<le> navigations_in st + n"
  by (auto simp: walk_trace_def navigations_in_def)

lemma only_logs_navigations: "only_logs st st' \<Longrightarrow> navigations_in st' = navigations_in st"
proof -
  assume "only_logs st st'"
  then obtain new where n: "trace st' = trace st @ new" "list_all is_log new"
    by (auto simp: only_logs_def)
  have "filter is_navigate new = []"
    using n(2) by (induction new) (simp_all add: is_log_not_navigate)
  then show ?thesis using n(1) by (simp add: navigations_in_def)
qed

lemma get_driver_logs: "only_logs st (snd (get_driver env browser st))"
  by (auto simp: get_driver_def only_logs_refl only_logs_emit only_logs_world
        split: prod.splits option.splits)

lemma scrape_dynamic_navigations:
  "navigations_in (snd (scrape_dynamic env url selectors pagination limit browser st))
     \<le> navigations_in st + nat limit"
proof -
  obtain g st1 where g: "get_driver env browser st = (g, st1)"
    by (cases "get_driver env browser st")
  have n1: "navigations_in st1 = navigations_in st"
    using only_logs_navigations[OF get_driver_logs[of st env browser]] g by simp
  obtain r st2 where r: "dynamic_loop env selectors pagination limit (Some url) 0 [] st1 = (r, st2)"
    by (cases "dynamic_loop env selectors pagination limit (Some url) 0 [] st1")
  have n2: "navigations_in st2 \<le> navigations_in st1 + nat limit"
    using walk_trace_navigations[OF dynamic_loop_walk[of limit 0 st1 env selectors pagination "Some url" "[]"]] r
    by simp
  obtain q w where q: "driver_quit env (world st2) = (q, w)"
    by (cases "driver_quit env (world st2)")
  show ?thesis using g r q n1 n2
    by (cases g; cases q) (simp_all add: scrape_dynamic_def)
qed

lemma dynamic_loop_full:
  assumes get: "\<And>u w. fst (driver_get env u w) = None"
    and ready: "\<And>w. fst (driver_wait env 10 (Presence_of_element_located ready_marker) w) = None"
    and page: "\<And>results st. \<exists>rows st'. dynamic_page env selectors results st = (Inr rows, st')"
    and nx: "\<And>cur st. truthy (fst (dynamic_next env pagination cur st))"
  shows "truthy current_url \<Longrightarrow>
    navigations_in (snd (dynamic_loop env selectors pagination limit current_url pages_scraped results st))
     = navigations_in st + nat (limit - pages_scraped)"
proof (induction "nat (limit - pages_scraped)" arbitrary: current_url pages_scraped results st)
  case 0
  then have "\<not> (truthy current_url \<and> pages_scraped < limit)" by simp
  then show ?case using 0 by (simp add: dynamic_loop_exit)
next
  case (Suc n)
  then have lt: "pages_scraped < limit" and n: "n = nat (limit - (pages_scraped + 1))" by simp_all
  have one: "Suc n = nat (limit - pages_scraped)" using Suc.hyps(2) .
  from Suc.prems obtain cur where cur: "current_url = Some cur" "cur \<noteq> []"
    by (cases current_url) simp_all
  obtain w where g: "driver_get env cur (world st) = (None, w)"
    using get[of cur "world st"] by (cases "driver_get env cur (world st)") simp
  obtain w' where wt: "driver_wait env 10 (Presence_of_element_located ready_marker) w = (None, w')"
    using ready[of w] by (cases "driver_wait env 10 (Presence_of_element_located ready_marker) w") simp
  let ?st0 = "emit (Navigate cur) (st\<lparr>world := w'\<rparr>)"
  obtain results' st1 where pg: "dynamic_page env selectors results ?st0 = (Inr results', st1)"
    using page[of results ?st0] by blast
  obtain next_url st2 where nxt: "dynamic_next env pagination cur st1 = (next_url, st2)"
    by (cases "dynamic_next env pagination cur st1")
  have t: "truthy next_url" using nx[of cur st1] nxt by simp
  have "navigations_in st1 = navigations_in ?st0"
    using only_logs_navigations[OF dynamic_page_logs[of ?st0 env selectors results]] pg by simp
  moreover have "navigations_in st2 = navigations_in st1"
    using only_logs_navigations[OF dynamic_next_logs[of st1 env pagination cur]] nxt by simp
  ultimately have c: "navigations_in (emit (Log Info) st2) = navigations_in st + 1" by simp
  show ?case
    unfolding one[symmetric] cur dynamic_loop_next[OF cur(2) lt g wt pg nxt]
    using Suc.hyps(1)[OF n t, of results' "emit (Log Info) st2"] c
    by (simp add: n)
qed

lemma dynamic_loop_last_page:
  assumes "cur \<noteq> []" "pages_scraped < limit"
    and "driver_get env cur (world st) = (None, w)"
    and "driver_wait env 10 (Presence_of_element_located ready_marker) w = (None, w')"
    and "dynamic_page env selectors results (emit (Navigate cur) (st\<lparr>world := w'\<rparr>)) = (Inr results', st1)"
    and "dynamic_next env pagination cur st1 = (next_url, st2)"
    and "\<not> truthy next_url"
  shows "dynamic_loop env selectors pagination limit (Some cur) pages_scraped results st
     = (Inr results', emit (Log Info) st2)"
  unfolding dynamic_loop_next[OF assms(1-6)]
  by (rule dynamic_loop_exit) (simp add: assms(7))

lemma dynamic_next_unconfigured:
  "\<not> truthy pagination \<Longrightarrow> dynamic_next env pagination cur st = (None, st)"
  by (cases pagination) (simp_all add: dynamic_next_def)

lemma dynamic_loop_single:
  assumes "\<not> truthy pagination"
  shows "navigations_in (snd (dynamic_loop env selectors pagination limit current_url pages_scraped results st))
     \<le> navigations_in st + 1"
proof (cases "truthy current_url \<and> pages_scraped < limit")
  case False
  then show ?thesis by (simp add: dynamic_loop_exit)
next
  case True
  then obtain cur where cur: "current_url = Some cur" "cur \<noteq> []" and lt: "pages_scraped < limit"
    by (cases current_url) simp_all
  obtain r w where g: "driver_get env cur (world st) = (r, w)"
    by (cases "driver_get env cur (world st)")
  show ?thesis
  proof (cases r)
    case (Some e)
    show ?thesis by (simp add: cur dynamic_loop_get_raises[OF cur(2) lt g[unfolded Some]])
  next
    case None
    obtain r' w' where wt: "driver_wait env 10 (Presence_of_element_located ready_marker) w = (r', w')"
      by (cases "driver_wait env 10 (Presence_of_element_located ready_marker) w")
    let ?st0 = "emit (Navigate cur) (st\<lparr>world := w'\<rparr>)"
    show ?thesis
    proof (cases r')
      case (Some e)
      show ?thesis
        by (simp add: cur dynamic_loop_not_ready[OF cur(2) lt g[unfolded None] wt[unfolded Some]])
    next
      case None': None
      obtain pr st1 where pg: "dynamic_page env selectors results ?st0 = (pr, st1)"
        by (cases "dynamic_page env selectors results ?st0")
      have n1: "navigations_in st1 = navigations_in st + 1"
        using only_logs_navigations[OF dynamic_page_logs[of ?st0 env selectors results]] pg by simp
      show ?thesis
      proof (cases pr)
        case (Inl e)
        show ?thesis using n1
          by (simp add: cur dynamic_loop_page_raises[OF cur(2) lt g[unfolded None] wt[unfolded None'] pg[unfolded Inl]])
      next
        case (Inr results')
        have nx: "dynamic_next env pagination cur st1 = (None, st1)"
          using dynamic_next_unconfigured[OF assms] .
        show ?thesis using n1
          by (simp add: cur dynamic_loop_last_page[OF cur(2) lt g[unfolded None] wt[unfolded None'] pg[unfolded Inr] nx])
      qed
    qed
  qed
qed

lemma scrape_dynamic_full:
  assumes drv: "fst (get_driver env browser st) = None"
    and url: "url \<noteq> []"
    and get: "\<And>u w. fst (driver_get env u w) = None"
    and ready: "\<And>w. fst (driver_wait env 10 (Presence_of_element_located ready_marker) w) = None"
    and page: "\<And>results st. \<exists>rows st'. dynamic_page env selectors results st = (Inr rows, st')"
    and nx: "\<And>cur st. truthy (fst (dynamic_next env pagination cur st))"
  shows "navigations_in (snd (scrape_dynamic env url selectors pagination limit browser st))
     = navigations_in st + nat limit"
proof -
  obtain st1 where g: "get_driver env browser st = (None, st1)"
    using drv by (cases "get_driver env browser st") simp
  have n1: "navigations_in st1 = navigations_in st"
    using only_logs_navigations[OF get_driver_logs[of st env browser]] g by simp
  obtain r st2 where r: "dynamic_loop env selectors pagination limit (Some url) 0 [] st1 = (r, st2)"
    by (cases "dynamic_loop env selectors pagination limit (Some url) 0 [] st1")
  have "truthy (Some url)" using url by simp
  from dynamic_loop_full[where env = env and selectors = selectors and pagination = pagination,
      OF get ready page nx this, of limit 0 "[]" st1]
  have n2: "navigations_in st2 = navigations_in st1 + nat limit" using r by simp
  obtain q w where q: "driver_quit env (world st2) = (q, w)"
    by (cases "driver_quit env (world st2)")
  show ?thesis using g r q n1 n2
    by (cases q) (simp_all add: scrape_dynamic_def)
qed

lemma scrape_dynamic_single:
  assumes "\<not> truthy pagination"
  shows "navigations_in (snd (scrape_dynamic env url selectors pagination limit browser st))
     \<le> navigations_in st + 1"
proof -
  obtain g st1 where g: "get_driver env browser st = (g, st1)"
    by (cases "get_driver env browser st")
  have n1: "navigations_in st1 = navigations_in st"
    using only_logs_navigations[OF get_driver_logs[of st env browser]] g by simp
  obtain r st2 where r: "dynamic_loop env selectors pagination limit (Some url) 0 [] st1 = (r, st2)"
    by (cases "dynamic_loop env selectors pagination limit (Some url) 0 [] st1")
  have n2: "navigations_in st2 \<le> navigations_in st1 + 1"
    using dynamic_loop_single[OF assms, of env selectors limit "Some url" 0 "[]" st1] r by simp
  obtain q w where q: "driver_quit env (world st2) = (q, w)"
    by (cases "driver_quit env (world st2)")
  show ?thesis using g r q n1 n2
    by (cases g; cases q) (simp_all add: scrape_dynamic_def)
qed

text \<open>
  Claim C7. Counting a page as processed when it is requested (static) or navigated to
  (dynamic): for every configuration a walker processes at most \<open>limit\<close> pages (none
  when the limit is zero or less). When every page loads and has a valid next link or
  trigger, it processes exactly \<open>limit\<close> pages and stops there. At any turn of the
  loop, a page without a next link or trigger is the last: the loop returns after it.
  Without a pagination selector at most one page is processed.
\<close>

theorem walkers_stop_at_limit:
  "requests_in (snd (scrape_static env url selectors pagination limit st))
      \<le> requests_in st + nat limit
   \<and> (url \<noteq> []
        \<and> (\<forall>u w. \<exists>soup w'. requests_get_soup env u w = (Inr soup, w')
                      \<and> truthy (static_next env url pagination soup)) \<longrightarrow>
      requests_in (snd (scrape_static env url selectors pagination limit st))
        = requests_in st + nat limit)
   \<and> (\<forall>cur pages_scraped results soup w.
        cur \<noteq> [] \<and> pages_scraped < limit
        \<and> requests_get_soup env cur (world st) = (Inr soup, w)
        \<and> \<not> truthy (static_next env url pagination soup) \<longrightarrow>
      static_loop env url selectors pagination limit (Some cur) pages_scraped results st
        = (Inr (append_if_found (static_fields soup selectors ([], False)) results),
           emit (Log Info) (emit (Request cur) (st\<lparr>world := w\<rparr>))))
   \<and> (\<not> truthy pagination \<longrightarrow>
      requests_in (snd (scrape_static env url selectors pagination limit st)) \<le> requests_in st + 1)
   \<and> navigations_in (snd (scrape_dynamic env url selectors pagination limit browser st))
      \<le> navigations_in st + nat limit
   \<and> (url \<noteq> [] \<and> fst (get_driver env browser st) = None
        \<and> (\<forall>u w. fst (driver_get env u w) = None)
        \<and> (\<forall>w. fst (driver_wait env 10 (Presence_of_element_located ready_marker) w) = None)
        \<and> (\<forall>results st. \<exists>rows st'. dynamic_page env selectors results st = (Inr rows, st'))
        \<and> (\<forall>cur st. truthy (fst (dynamic_next env pagination cur st))) \<longrightarrow>
      navigations_in (snd (scrape_dynamic env url selectors pagination limit browser st))
        = navigations_in st + nat limit)
   \<and> (\<forall>cur pages_scraped results w w' results' st1 next_url st2.
        cur \<noteq> [] \<and> pages_scraped < limit
        \<and> driver_get env cur (world st) = (None, w)
        \<and> driver_wait env 10 (Presence_of_element_located ready_marker) w = (None, w')
        \<and> dynamic_page env selectors results (emit (Navigate cur) (st\<lparr>world := w'\<rparr>))
             = (Inr results', st1)
        \<and> dynamic_next env pagination cur st1 = (next_url, st2)
        \<and> \<not> truthy next_url \<longrightarrow>
      dynamic_loop env selectors pagination limit (Some cur) pages_scraped results st
        = (Inr results', emit (Log Info) st2))
   \<and> (\<not> truthy pagination \<longrightarrow>
      navigations_in (snd (scrape_dynamic env url selectors pagination limit browser st))
        \<le> navigations_in st + 1)"
proof (intro conjI allI impI)
  show "requests_in (snd (scrape_static env url selectors pagination limit st))
      \<le> requests_in st + nat limit"
    using static_loop_requests[of env url selectors pagination limit "Some url" 0 "[]" st]
    by (simp add: scrape_static_def)
  show "navigations_in (snd (scrape_dynamic env url selectors pagination limit browser st))
      \<le> navigations_in st + nat limit"
    by (rule scrape_dynamic_navigations)
next
  assume a: "url \<noteq> []
        \<and> (\<forall>u w. \<exists>soup w'. requests_get_soup env u w = (Inr soup, w')
                      \<and> truthy (static_next env url pagination soup))"
  then have t: "truthy (Some url)" by simp
  have nx: "\<exists>soup w'. requests_get_soup env u w = (Inr soup, w')
                      \<and> truthy (static_next env url pagination soup)" for u w
    using a by blast
  show "requests_in (snd (scrape_static env url selectors pagination limit st))
        = requests_in st + nat limit"
    using static_loop_full[where env = env and url = url and pagination = pagination, OF nx t,
        of selectors limit 0 "[]" st]
    by (simp add: scrape_static_def)
next
  fix cur pages_scraped results soup w
  assume a: "cur \<noteq> [] \<and> pages_scraped < limit
        \<and> requests_get_soup env cur (world st) = (Inr soup, w)
        \<and> \<not> truthy (static_next env url pagination soup)"
  have b: "cur \<noteq> []" "pages_scraped < limit"
    "requests_get_soup env cur (world st) = (Inr soup, w)"
    "\<not> truthy (static_next env url pagination soup)"
    using a by blast+
  show "static_loop env url selectors pagination limit (Some cur) pages_scraped results st
        = (Inr (append_if_found (static_fields soup selectors ([], False)) results),
           emit (Log Info) (emit (Request cur) (st\<lparr>world := w\<rparr>)))"
    by (rule static_loop_last_page[OF b])
next
  assume "\<not> truthy pagination"
  then show "requests_in (snd (scrape_static env url selectors pagination limit st)) \<le> requests_in st + 1"
    using static_loop_single[of pagination env url selectors limit "Some url" 0 "[]" st]
    by (simp add: scrape_static_def)
next
  assume a: "url \<noteq> [] \<and> fst (get_driver env browser st) = None
        \<and> (\<forall>u w. fst (driver_get env u w) = None)
        \<and> (\<forall>w. fst (driver_wait env 10 (Presence_of_element_located ready_marker) w) = None)
        \<and> (\<forall>results st. \<exists>rows st'. dynamic_page env selectors results st = (Inr rows, st'))
        \<and> (\<forall>cur st. truthy (fst (dynamic_next env pagination cur st)))"
  show "navigations_in (snd (scrape_dynamic env url selectors pagination limit browser st))
        = navigations_in st + nat limit"
    by (rule scrape_dynamic_full) (use a in blast)+
next
  fix cur pages_scraped results w w' results' st1 next_url st2
  assume a: "cur \<noteq> [] \<and> pages_scraped < limit
        \<and> driver_get env cur (world st) = (None, w)
        \<and> driver_wait env 10 (Presence_of_element_located ready_marker) w = (None, w')
        \<and> dynamic_page env selectors results (emit (Navigate cur) (st\<lparr>world := w'\<rparr>))
             = (Inr results', st1)
        \<and> dynamic_next env pagination cur st1 = (next_url, st2)
        \<and> \<not> truthy next_url"
  have b: "cur \<noteq> []" "pages_scraped < limit"
    "driver_get env cur (world st) = (None, w)"
    "driver_wait env 10 (Presence_of_element_located ready_marker) w = (None, w')"
    "dynamic_page env selectors results (emit (Navigate cur) (st\<lparr>world := w'\<rparr>))
             = (Inr results', st1)"
    "dynamic_next env pagination cur st1 = (next_url, st2)"
    "\<not> truthy next_url"
    using a by blast+
  show "dynamic_loop env selectors pagination limit (Some cur) pages_scraped results st
        = (Inr results', emit (Log Info) st2)"
    by (rule dynamic_loop_last_page[OF b])
next
  assume "\<not> truthy pagination"
  then show "navigations_in (snd (scrape_dynamic env url selectors pagination limit browser st))
        \<le> navigations_in st + 1"
    by (rule scrape_dynamic_single)
qed

theorem walkers_stop_at_limit_witness:
  "requests_in (snd (scrape_static endless_env ''https://x.test/p1'' [(''title'', ''h1'')]
                       (Some ''a.next'') 3 start)) = 3
   \<and> navigations_in (snd (scrape_dynamic shop_env ''https://shop.test/p1'' [(''title'', ''h1'')]
                       (Some ''a.next'') 2 ''chrome'' start)) = 2"
proof -
  have s: "''https://x.test/p1'' \<noteq> []
        \<and> (\<forall>u w. \<exists>soup w'. requests_get_soup endless_env u w = (Inr soup, w')
               \<and> truthy (static_next endless_env ''https://x.test/p1'' (Some ''a.next'') soup))"
    by (simp add: endless_env_def static_next_def select_one_def page_one_def link_tag_def)
  have p: "\<exists>rows st'. dynamic_page shop_env [(''title'', ''h1'')] results st = (Inr rows, st')"
    for results st
    by (simp add: dynamic_page_def Let_def)
  have n: "truthy (fst (dynamic_next shop_env (Some ''a.next'') cur st))" for cur st
    by (simp add: dynamic_next_def shop_env_def dead_env_def)
  have d: "''https://shop.test/p1'' \<noteq> [] \<and> fst (get_driver shop_env ''chrome'' start) = None
        \<and> (\<forall>u w. fst (driver_get shop_env u w) = None)
        \<and> (\<forall>w. fst (driver_wait shop_env 10 (Presence_of_element_located ready_marker) w) = None)
        \<and> (\<forall>results st. \<exists>rows st'.
              dynamic_page shop_env [(''title'', ''h1'')] results st = (Inr rows, st'))
        \<and> (\<forall>cur st. truthy (fst (dynamic_next shop_env (Some ''a.next'') cur st)))"
  proof -
    have "fst (get_driver shop_env ''chrome'' start) = None" by (simp add: shop_driver)
    moreover have "\<forall>u w. fst (driver_get shop_env u w) = None"
      by (simp add: shop_env_def dead_env_def)
    moreover have "\<forall>w. fst (driver_wait shop_env 10 (Presence_of_element_located ready_marker) w) = None"
      by (simp add: shop_env_def dead_env_def)
    ultimately show ?thesis using p n by blast
  qed
  have z: "requests_in start = 0" "navigations_in start = 0"
    by (simp_all add: requests_in_def navigations_in_def start_def)
  note t = walkers_stop_at_limit
  show ?thesis
    using t [THEN conjunct2, THEN conjunct1, rule_format, OF s, of "[(''title'', ''h1'')]" 3 start]
      t [THEN conjunct2, THEN conjunct2, THEN conjunct2, THEN conjunct2, THEN conjunct2,
         THEN conjunct1, rule_format, OF d, of 2]
    by (simp add: z)
qed


section \<open>The enumeration of variations\<close>

lemma trigger_succeeds:
  assumes "\<And>el w. fst (driver_click env el w) = None"
    and "\<And>c w. fst (driver_wait env 5 c w) = None"
  shows "\<exists>st1. trigger env (Some el) st = (True, st1)"
proof -
  obtain w where c: "driver_click env el (world st) = (None, w)"
    using assms(1)[of el "world st"] by (cases "driver_click env el (world st)") simp
  obtain w' where w: "driver_wait env 5 (py_or (Staleness_of el) (Presence_of_element_located ready_marker)) w = (None, w')"
    using assms(2)[of "py_or (Staleness_of el) (Presence_of_element_located ready_marker)" w]
    by (cases "driver_wait env 5 (py_or (Staleness_of el) (Presence_of_element_located ready_marker)) w") simp
  show ?thesis by (simp add: trigger_def click_and_wait_def c w)
qed

lemma variation_record_found:
  assumes tc: "element_text env c (world st) = Inr tc"
    and ts: "element_text env s (world st) = Inr ts"
    and found: "dynamic_matched env selectors (world st)"
  shows "\<exists>var st2. variation_record env selectors (Some c) (Some s) st = (Inr (var, True), st2)
           \<and> (''variation_color'' \<notin> fst ` set selectors \<and> ''variation_size'' \<notin> fst ` set selectors \<longrightarrow>
                labelled env var (c, s))"
proof -
  let ?seed = "[(''variation_color'', VStr (str_strip tc)), (''variation_size'', VStr (str_strip ts))]"
  let ?r = "dynamic_fields env selectors (?seed, False, st)"
  have v: "variation_record env selectors (Some c) (Some s) st = (Inr (fst ?r, fst (snd ?r)), snd (snd ?r))"
    by (simp add: variation_record_def label_text_def tc ts Let_def)
  have f: "fst (snd ?r)" using found by (simp add: dynamic_fields_flag)
  have l: "''variation_color'' \<notin> fst ` set selectors \<Longrightarrow>
           map_of (fst ?r) ''variation_color'' = Some (VStr (str_strip tc))"
    using dynamic_fields_other[of "''variation_color''" selectors env "(?seed, False, st)"] by simp
  have l': "''variation_size'' \<notin> fst ` set selectors \<Longrightarrow>
           map_of (fst ?r) ''variation_size'' = Some (VStr (str_strip ts))"
    using dynamic_fields_other[of "''variation_size''" selectors env "(?seed, False, st)"] by simp
  have "''variation_color'' \<notin> fst ` set selectors \<and> ''variation_size'' \<notin> fst ` set selectors \<longrightarrow>
          labelled env (fst ?r) (c, s)"
    unfolding labelled_def using l l' tc ts by auto
  then show ?thesis using v f by auto
qed

lemma size_loop_enumerates:
  assumes click: "\<And>el w. fst (driver_click env el w) = None"
    and wait: "\<And>c w. fst (driver_wait env 5 c w) = None"
    and found: "\<And>w. dynamic_matched env selectors w"
    and tc: "\<And>w. \<exists>t. element_text env c w = Inr t"
  shows "(\<And>s w. s \<in> set sizes \<Longrightarrow> \<exists>t. element_text env s w = Inr t) \<Longrightarrow>
     \<exists>vars st'. size_loop env selectors (Some c) (map Some sizes) results st = (Inr (results @ vars), st')
        \<and> list_all2 (\<lambda>var s. ''variation_color'' \<notin> fst ` set selectors
                           \<and> ''variation_size'' \<notin> fst ` set selectors \<longrightarrow> labelled env var (c, s))
             vars sizes"
proof (induction sizes arbitrary: results st)
  case Nil
  show ?case by simp
next
  case (Cons s sizes)
  obtain st1 where t: "trigger env (Some s) st = (True, st1)"
    using trigger_succeeds[of env s st, OF click wait] by blast
  obtain t1 where t1: "element_text env c (world st1) = Inr t1" using tc by blast
  obtain t2 where t2: "element_text env s (world st1) = Inr t2" using Cons.prems[of s] by auto
  from variation_record_found[OF t1 t2 found]
  obtain var st2 where v: "variation_record env selectors (Some c) (Some s) st1 = (Inr (var, True), st2)"
    and l: "''variation_color'' \<notin> fst ` set selectors \<and> ''variation_size'' \<notin> fst ` set selectors \<longrightarrow>
                labelled env var (c, s)"
    by blast
  have "\<And>s w. s \<in> set sizes \<Longrightarrow> \<exists>t. element_text env s w = Inr t" using Cons.prems by simp
  from Cons.IH[OF this, of "results @ [var]" st2]
  obtain vars st' where
    r: "size_loop env selectors (Some c) (map Some sizes) (results @ [var]) st2
          = (Inr ((results @ [var]) @ vars), st')"
    and lv: "list_all2 (\<lambda>var s. ''variation_color'' \<notin> fst ` set selectors
                           \<and> ''variation_size'' \<notin> fst ` set selectors \<longrightarrow> labelled env var (c, s))
             vars sizes"
    by blast
  have "size_loop env selectors (Some c) (map Some (s # sizes)) results st
          = (Inr (results @ (var # vars)), st')"
    using t v r by (simp add: append_if_found_def)
  moreover have "list_all2 (\<lambda>var s. ''variation_color'' \<notin> fst ` set selectors
                           \<and> ''variation_size'' \<notin> fst ` set selectors \<longrightarrow> labelled env var (c, s))
             (var # vars) (s # sizes)"
    using l lv by simp
  ultimately show ?case by blast
qed

lemma color_loop_enumerates:
  assumes click: "\<And>el w. fst (driver_click env el w) = None"
    and wait: "\<And>c w. fst (driver_wait env 5 c w) = None"
    and found: "\<And>w. dynamic_matched env selectors w"
    and ts: "\<And>s w. s \<in> set sizes \<Longrightarrow> \<exists>t. element_text env s w = Inr t"
  shows "(\<And>c w. c \<in> set colors \<Longrightarrow> \<exists>t. element_text env c w = Inr t) \<Longrightarrow>
     \<exists>vars st'. color_loop env selectors (map Some colors) (map Some sizes) results st
                   = (Inr (results @ vars), st')
        \<and> list_all2 (\<lambda>var cs. ''variation_color'' \<notin> fst ` set selectors
                           \<and> ''variation_size'' \<notin> fst ` set selectors \<longrightarrow> labelled env var cs)
             vars (List.product colors sizes)"
proof (induction colors arbitrary: results st)
  case Nil
  show ?case by simp
next
  case (Cons c colors)
  let ?R = "\<lambda>var cs. ''variation_color'' \<notin> fst ` set selectors
                           \<and> ''variation_size'' \<notin> fst ` set selectors \<longrightarrow> labelled env var cs"
  obtain st1 where t: "trigger env (Some c) st = (True, st1)"
    using trigger_succeeds[of env c st, OF click wait] by blast
  have tc: "\<And>w. \<exists>t. element_text env c w = Inr t" using Cons.prems by simp
  from size_loop_enumerates[where env = env and selectors = selectors and c = c
      and sizes = sizes, OF click wait found tc ts, of results st1]
  obtain vars1 st2 where
    s: "size_loop env selectors (Some c) (map Some sizes) results st1 = (Inr (results @ vars1), st2)"
    and l1: "list_all2 (\<lambda>var s. ?R var (c, s)) vars1 sizes"
    by blast
  have l1': "list_all2 ?R vars1 (map (Pair c) sizes)"
    using l1 by (simp add: list_all2_map2)
  have "\<And>c w. c \<in> set colors \<Longrightarrow> \<exists>t. element_text env c w = Inr t" using Cons.prems by simp
  from Cons.IH[OF this, of "results @ vars1" st2]
  obtain vars st' where
    r: "color_loop env selectors (map Some colors) (map Some sizes) (results @ vars1) st2
          = (Inr ((results @ vars1) @ vars), st')"
    and lv: "list_all2 ?R vars (List.product colors sizes)"
    by blast
  have "color_loop env selectors (map Some (c # colors)) (map Some sizes) results st
          = (Inr (results @ (vars1 @ vars)), st')"
    using t s r by simp
  moreover have "list_all2 ?R (vars1 @ vars) (List.product (c # colors) sizes)"
    using list_all2_appendI[OF l1' lv] by simp
  ultimately show ?case by blast
qed

text \<open>
  Claim C5. On a page where both variation selectors are configured and match the colour
  elements \<open>colors\<close> and the size elements \<open>sizes\<close>, where no click, wait or label read
  fails and some selector matches in every state, the walker appends the base record and
  after it one variation record for each pair of a colour and a size, and nothing else:
  \<open>length colors * length sizes\<close> variation records, the pairs taken colour by colour
  and, within a colour, size by size, in the order of the matched elements. (The labels
  are read back from the records when no selector is itself named after a label.)
\<close>

theorem variations_color_major:
  assumes "map_of selectors ''color_variation'' = Some color_sel" and "color_sel \<noteq> []"
    and "map_of selectors ''size_variation'' = Some size_sel" and "size_sel \<noteq> []"
    and "find_elements env color_sel (world st) = Inr colors"
    and "find_elements env size_sel (world st) = Inr sizes"
    and "\<forall>el w. fst (driver_click env el w) = None"
    and "\<forall>c w. fst (driver_wait env 5 c w) = None"
    and "\<forall>el \<in> set (colors @ sizes). \<forall>w. \<exists>t. element_text env el w = Inr t"
    and "\<forall>w. dynamic_matched env selectors w"
  shows "\<exists>vars st'.
      dynamic_page env selectors results st
        = (Inr (results @ fst (dynamic_fields env selectors ([], False, st)) # vars), st')
      \<and> length vars = length colors * length sizes
      \<and> (''variation_color'' \<notin> fst ` set selectors \<and> ''variation_size'' \<notin> fst ` set selectors \<longrightarrow>
           list_all2 (labelled env) vars (List.product colors sizes))"
proof -
  let ?base = "dynamic_fields env selectors ([], False, st)"
  let ?st1 = "snd (snd ?base)"
  let ?R = "\<lambda>var cs. ''variation_color'' \<notin> fst ` set selectors
                           \<and> ''variation_size'' \<notin> fst ` set selectors \<longrightarrow> labelled env var cs"
  have w1: "world ?st1 = world st" using dynamic_fields_world[of env selectors "([], False, st)"] by simp
  have f: "fst (snd ?base)" using assms(10) by (simp add: dynamic_fields_flag)
  have ce: "variation_elements env (Some color_sel) (world ?st1) = Inr (map Some colors)"
    using assms(2,5) by (simp add: variation_elements_def w1)
  have se: "variation_elements env (Some size_sel) (world ?st1) = Inr (map Some sizes)"
    using assms(4,6) by (simp add: variation_elements_def w1)
  have ts: "\<And>s w. s \<in> set sizes \<Longrightarrow> \<exists>t. element_text env s w = Inr t" using assms(9) by auto
  have tc: "\<And>c w. c \<in> set colors \<Longrightarrow> \<exists>t. element_text env c w = Inr t" using assms(9) by auto
  have click: "\<And>el w. fst (driver_click env el w) = None" using assms(7) by blast
  have wait: "\<And>c w. fst (driver_wait env 5 c w) = None" using assms(8) by blast
  have found: "\<And>w. dynamic_matched env selectors w" using assms(10) by blast
  from color_loop_enumerates[where env = env and selectors = selectors and sizes = sizes
      and colors = colors, OF click wait found ts tc, of "results @ [fst ?base]" ?st1]
  obtain vars st' where
    c: "color_loop env selectors (map Some colors) (map Some sizes) (results @ [fst ?base]) ?st1
          = (Inr ((results @ [fst ?base]) @ vars), st')"
    and l: "list_all2 ?R vars (List.product colors sizes)"
    by blast
  have p: "dynamic_page env selectors results st = (Inr (results @ fst ?base # vars), st')"
    unfolding dynamic_page_def Let_def
    using assms(1,2,3) f ce se c by (simp add: append_if_found_def)
  have n: "length vars = length colors * length sizes"
    using list_all2_lengthD[OF l] by simp
  have "''variation_color'' \<notin> fst ` set selectors \<and> ''variation_size'' \<notin> fst ` set selectors \<longrightarrow>
           list_all2 (labelled env) vars (List.product colors sizes)"
    using l by (auto elim: list_all2_mono)
  with p n show ?thesis by blast
qed

lemma shop_variations:
  "dynamic_page shop_env
     [(''title'', ''h1''), (''color_variation'', ''.color''), (''size_variation'', ''.size'')] [] start
   = (Inr [[(''title'', VStr ''Shirt'')],
           [(''variation_color'', VStr ''Red''), (''variation_size'', VStr ''S''), (''title'', VStr ''Shirt'')],
           [(''variation_color'', VStr ''Red''), (''variation_size'', VStr ''M''), (''title'', VStr ''Shirt'')],
           [(''variation_color'', VStr ''Red''), (''variation_size'', VStr ''L''), (''title'', VStr ''Shirt'')],
           [(''variation_color'', VStr ''Blue''), (''variation_size'', VStr ''S''), (''title'', VStr ''Shirt'')],
           [(''variation_color'', VStr ''Blue''), (''variation_size'', VStr ''M''), (''title'', VStr ''Shirt'')],
           [(''variation_color'', VStr ''Blue''), (''variation_size'', VStr ''L''), (''title'', VStr ''Shirt'')]],
      \<lparr> world = 8, trace = [] \<rparr>)"
proof -
  let ?sels = "[(''title'', ''h1''), (''color_variation'', ''.color''), (''size_variation'', ''.size'')]"
  have t: "trigger shop_env (Some el) st = (True, st\<lparr>world := Suc (world st)\<rparr>)" for el st
    by (simp add: trigger_def click_and_wait_def shop_env_def dead_env_def)
  have f: "dynamic_fields shop_env ?sels (seed, b, st) = (dict_set ''title'' (VStr ''Shirt'') seed, True, st)"
    for seed b st
    by (simp add: dynamic_field_def dynamic_value_def shop_defs str_defs)
  have l: "label_text shop_env (Some el) w = Inr (str_strip (shop_text el))" for el w
    by (simp add: label_text_def shop_env_def dead_env_def)
  have v: "variation_record shop_env ?sels (Some c) (Some s) st
     = (Inr ([(''variation_color'', VStr (str_strip (shop_text c))),
              (''variation_size'', VStr (str_strip (shop_text s))),
              (''title'', VStr ''Shirt'')], True), st)" for c s st
    unfolding variation_record_def l f by simp
  have x: "str_strip (shop_text (Suc 0)) = ''Red''" "str_strip (shop_text 2) = ''Blue''"
    "str_strip (shop_text 3) = ''S''" "str_strip (shop_text 4) = ''M''" "str_strip (shop_text 5) = ''L''"
    by (simp_all add: shop_text_def str_defs)
  have ce: "variation_elements shop_env (Some ''.color'') w = Inr [Some 1, Some 2]" for w
    by (simp add: variation_elements_def shop_env_def dead_env_def)
  have se: "variation_elements shop_env (Some ''.size'') w = Inr [Some 3, Some 4, Some 5]" for w
    by (simp add: variation_elements_def shop_env_def dead_env_def)
  show ?thesis
    unfolding dynamic_page_def f
    by (simp add: ce se t v x append_if_found_def start_def)
qed

theorem variations_color_major_witness:
  "(\<exists>vars st'.
      dynamic_page shop_env
        [(''title'', ''h1''), (''color_variation'', ''.color''), (''size_variation'', ''.size'')] [] start
        = (Inr (fst (dynamic_fields shop_env
                  [(''title'', ''h1''), (''color_variation'', ''.color''), (''size_variation'', ''.size'')]
                  ([], False, start)) # vars), st')
      \<and> length vars = 6
      \<and> list_all2 (labelled shop_env) vars (List.product [1, 2] [3, 4, 5]))
   \<and> variation_labels (tl (projr (fst (dynamic_page shop_env
        [(''title'', ''h1''), (''color_variation'', ''.color''), (''size_variation'', ''.size'')] [] start))))
      = [(Some (VStr ''Red''), Some (VStr ''S'')), (Some (VStr ''Red''), Some (VStr ''M'')),
         (Some (VStr ''Red''), Some (VStr ''L'')), (Some (VStr ''Blue''), Some (VStr ''S'')),
         (Some (VStr ''Blue''), Some (VStr ''M'')), (Some (VStr ''Blue''), Some (VStr ''L''))]"
proof -
  let ?sels = "[(''title'', ''h1''), (''color_variation'', ''.color''), (''size_variation'', ''.size'')]"
  have m: "\<forall>w. dynamic_matched shop_env ?sels w"
    by (simp add: dynamic_matched_def shop_env_def dead_env_def)
  have n: "''variation_color'' \<notin> fst ` set ?sels \<and> ''variation_size'' \<notin> fst ` set ?sels"
    by simp
  have h: "map_of ?sels ''color_variation'' = Some ''.color''" "''.color'' \<noteq> []"
    "map_of ?sels ''size_variation'' = Some ''.size''" "''.size'' \<noteq> []"
    "find_elements shop_env ''.color'' (world start) = Inr [1, 2]"
    "find_elements shop_env ''.size'' (world start) = Inr [3, 4, 5]"
    "\<forall>el w. fst (driver_click shop_env el w) = None"
    "\<forall>c w. fst (driver_wait shop_env 5 c w) = None"
    "\<forall>el \<in> set ([1, 2] @ [3, 4, 5]). \<forall>w. \<exists>t. element_text shop_env el w = Inr t"
    by (simp_all add: shop_env_def dead_env_def)
  from variations_color_major [OF h m, of "[]"] n
  have "\<exists>vars st'.
      dynamic_page shop_env ?sels [] start
        = (Inr (fst (dynamic_fields shop_env ?sels ([], False, start)) # vars), st')
      \<and> length vars = 6
      \<and> list_all2 (labelled shop_env) vars (List.product [1, 2] [3, 4, 5])"
    by (elim exE conjE, intro exI conjI) simp_all
  moreover have "variation_labels (tl (projr (fst (dynamic_page shop_env ?sels [] start))))
      = [(Some (VStr ''Red''), Some (VStr ''S'')), (Some (VStr ''Red''), Some (VStr ''M'')),
         (Some (VStr ''Red''), Some (VStr ''L'')), (Some (VStr ''Blue''), Some (VStr ''S'')),
         (Some (VStr ''Blue''), Some (VStr ''M'')), (Some (VStr ''Blue''), Some (VStr ''L''))]"
    unfolding shop_variations by (simp add: variation_labels_def)
  ultimately show ?thesis by blast
qed

end
